theory Spec2Isabelle
  imports Main "HOL-Library.Sublist"
begin

section \<open>JavaScript strings\<close>

text \<open>
  A JavaScript string is a sequence of UTF-16 code units; a code unit is modelled as a
  natural number.  \<open>js\<close> turns an ASCII literal of the source into its code units.
\<close>

type_synonym jsstring = "nat list"

definition js :: "string \<Rightarrow> jsstring" where
  "js cs = map of_char cs"

text \<open>\<^verbatim>\<open>s.includes(t)\<close>: \<open>t\<close> occurs in \<open>s\<close> as a contiguous piece.\<close>

fun includes_str :: "jsstring \<Rightarrow> jsstring \<Rightarrow> bool" where
  "includes_str [] t = (t = [])"
| "includes_str (x # xs) t = (prefix t (x # xs) \<or> includes_str xs t)"

text \<open>\<^verbatim>\<open>s.endsWith(t)\<close>.\<close>

definition endsWith :: "jsstring \<Rightarrow> jsstring \<Rightarrow> bool" where
  "endsWith s t = suffix t s"

text \<open>
  White space as \<^verbatim>\<open>trim()\<close> and the pattern atom \<^verbatim>\<open>\s\<close> see it: the ECMAScript
  WhiteSpace and LineTerminator code points.
\<close>

definition isSpace :: "nat \<Rightarrow> bool" where
  "isSpace c = (c \<in> {0x9, 0xA, 0xB, 0xC, 0xD, 0x20, 0xA0, 0x1680, 0x2028, 0x2029,
                      0x202F, 0x205F, 0x3000, 0xFEFF} \<or> (0x2000 \<le> c \<and> c \<le> 0x200A))"

definition trim :: "jsstring \<Rightarrow> jsstring" where
  "trim s = rev (dropWhile isSpace (rev (dropWhile isSpace s)))"

text \<open>
  \<^verbatim>\<open>toLowerCase()\<close>, one code unit at a time, for the places where the program tests
  the lower-case form against ASCII text (the keywords of the crawler, the phrases and day
  names of the extractor) or replaces what is outside \<^verbatim>\<open>[a-z0-9]\<close> (the slug).  The
  table is exact on ASCII and Latin-1 and on the two other code points whose lower-case form
  contains an ASCII letter: U+0130 (capital I with dot above, which becomes \<open>i\<close> followed
  by U+0307) and U+212A (the Kelvin sign, which becomes \<open>k\<close>).  Every remaining code unit
  has a lower-case form outside ASCII, which those tests and replacements cannot tell from
  the code unit itself, and stands here for that form.  The filter of the frontend compares
  two lower-case forms with each other; there the function of the runtime is a parameter.
\<close>

definition lowerUnit :: "nat \<Rightarrow> nat list" where
  "lowerUnit c =
     (if 0x41 \<le> c \<and> c \<le> 0x5A then [c + 0x20]
      else if 0xC0 \<le> c \<and> c \<le> 0xDE \<and> c \<noteq> 0xD7 then [c + 0x20]
      else if c = 0x130 then [0x69, 0x307]
      else if c = 0x212A then [0x6B]
      else [c])"

definition toLowerCase :: "jsstring \<Rightarrow> jsstring" where
  "toLowerCase s = concat (map lowerUnit s)"

text \<open>
  \<^verbatim>\<open>toUpperCase()\<close>, one code unit at a time, exact on ASCII.  The program
  applies it only to a time captured by a pattern below, which is made of digits, a colon,
  white space, dots and the letters a, p and m; other code units stand for their own
  upper-case forms.
\<close>

definition upperUnit :: "nat \<Rightarrow> nat list" where
  "upperUnit c = (if 0x61 \<le> c \<and> c \<le> 0x7A then [c - 0x20] else [c])"

definition toUpperCase :: "jsstring \<Rightarrow> jsstring" where
  "toUpperCase s = concat (map upperUnit s)"

text \<open>\<^verbatim>\<open>xs.indexOf(x)\<close>: the first index of \<open>x\<close>, or \<open>-1\<close>.\<close>

fun indexOf :: "'a list \<Rightarrow> 'a \<Rightarrow> int" where
  "indexOf [] x = -1"
| "indexOf (y # ys) x = (if y = x then 0 else (let i = indexOf ys x in if i < 0 then -1 else i + 1))"

text \<open>
  A \<^verbatim>\<open>Set\<close> keeps its members in insertion order and ignores the insertion of a
  member it already has; \<^verbatim>\<open>[...set]\<close> lists them in that order.
\<close>

definition set_add :: "'a list \<Rightarrow> 'a \<Rightarrow> 'a list" where
  "set_add xs x = (if x \<in> set xs then xs else xs @ [x])"

definition new_Set :: "'a list \<Rightarrow> 'a list" where
  "new_Set xs = foldl set_add [] xs"

section \<open>Regular expressions\<close>

text \<open>
  The patterns of the program are values of \<open>re\<close>; they use literals, character classes
  (with \<^verbatim>\<open>\d\<close> and \<^verbatim>\<open>\s\<close>), sequence, alternation, the greedy quantifiers
  \<^verbatim>\<open>?\<close>, \<^verbatim>\<open>*\<close> and \<^verbatim>\<open>+\<close>, the lazy \<^verbatim>\<open>*?\<close>, capture groups, the anchors
  \<^verbatim>\<open>^\<close> and \<^verbatim>\<open>$\<close> (no pattern has the \<^verbatim>\<open>m\<close> flag) and \<^verbatim>\<open>\b\<close>.  No pattern has
  a capture group under a quantifier.
\<close>

datatype citem = One nat | Range nat nat | Digits | Spaces

datatype re =
    Eps
  | Lit nat
  | Cls bool "citem list"
  | Seq re re
  | Alt re re
  | Opt re
  | Star re
  | LazyStar re
  | Grp nat re
  | Bol
  | Eol
  | WordB

text \<open>
  The matcher is the backtracking matcher of ECMAScript with its continuation made
  explicit: a stack of frames still to be matched.  \<open>Prog n\<close> is the check that an
  iteration of a quantifier with minimum zero has consumed input (fewer than \<open>n\<close> code
  units are left), \<open>EndGrp n s\<close> closes capture group \<open>n\<close>, which was opened when the
  input left was \<open>s\<close>.  A cursor is the code unit before the position, if any, and the
  input from the position on.
\<close>

datatype frame = R re | Prog nat | EndGrp nat jsstring

type_synonym cursor = "nat option \<times> jsstring"

type_synonym caps = "nat \<Rightarrow> jsstring option"

text \<open>
  Canonicalisation under the \<^verbatim>\<open>i\<close> flag (without \<^verbatim>\<open>u\<close>): upper case, and a code
  unit outside ASCII never becomes an ASCII one.  The only non-ASCII character of the
  patterns is U+2013, which has no case, so the ASCII part decides every comparison.
\<close>

definition canon :: "bool \<Rightarrow> nat \<Rightarrow> nat" where
  "canon ic c = (if ic \<and> 0x61 \<le> c \<and> c \<le> 0x7A then c - 0x20 else c)"

fun inItem :: "bool \<Rightarrow> nat \<Rightarrow> citem \<Rightarrow> bool" where
  "inItem ic x (One a) = (canon ic a = canon ic x)"
| "inItem ic x (Range a b) =
     (if ic then list_ex (\<lambda>m. canon ic m = canon ic x) [a..<Suc b] else a \<le> x \<and> x \<le> b)"
| "inItem ic x Digits = (0x30 \<le> x \<and> x \<le> 0x39)"
| "inItem ic x Spaces = isSpace x"

definition isWordChar :: "nat \<Rightarrow> bool" where
  "isWordChar c = ((0x61 \<le> c \<and> c \<le> 0x7A) \<or> (0x41 \<le> c \<and> c \<le> 0x5A)
                   \<or> (0x30 \<le> c \<and> c \<le> 0x39) \<or> c = 0x5F)"

text \<open>The measure under which the matcher terminates.\<close>

fun weight :: "re \<Rightarrow> nat \<Rightarrow> nat" where
  "weight Eps l = 1"
| "weight (Lit a) l = 1"
| "weight (Cls n i) l = 1"
| "weight (Seq r1 r2) l = 1 + weight r1 l + weight r2 l"
| "weight (Alt r1 r2) l = 1 + weight r1 l + weight r2 l"
| "weight (Opt r) l = 3 + weight r l"
| "weight (Star r) l = (l + 1) * (weight r l + 3)"
| "weight (LazyStar r) l = (l + 1) * (weight r l + 3)"
| "weight (Grp n r) l = 2 + weight r l"
| "weight Bol l = 1"
| "weight Eol l = 1"
| "weight WordB l = 1"

fun pending :: "frame list \<Rightarrow> nat \<Rightarrow> nat" where
  "pending [] l = 0"
| "pending (R r # k) l = weight r l + pending k l"
| "pending (Prog n # k) l = (if n = 0 then 0 else 1 + pending k (min l (n - 1)))"
| "pending (EndGrp n s # k) l = 1 + pending k l"

lemma weight_mono: "l \<le> l' \<Longrightarrow> weight r l \<le> weight r l'"
  by (induction r) (auto intro!: add_mono mult_le_mono)

lemma pending_mono: "l \<le> l' \<Longrightarrow> pending k l \<le> pending k l'"
proof (induction k l arbitrary: l' rule: pending.induct)
  case (2 r k l)
  then show ?case using weight_mono[of l l' r] by (simp add: add_mono)
next
  case (3 n k l)
  show ?case
  proof (cases "n = 0")
    case True
    then show ?thesis by simp
  next
    case False
    have "min l (n - 1) \<le> min l' (n - 1)" using "3.prems" by simp
    from "3.IH"[OF False this] show ?thesis using False by simp
  qed
qed auto

lemma pending_pred: "pending k (l - 1) \<le> pending k l"
  by (rule pending_mono) simp

lemma loop_weight:
  "weight r (Suc m) + 1 + (m + 1) * (weight r m + 3) + pending k m
     < (m + 2) * (weight r (Suc m) + 3) + pending k (Suc m)"
proof -
  have a: "(m + 1) * (weight r m + 3) \<le> (m + 1) * (weight r (Suc m) + 3)"
    by (intro mult_le_mono2 add_mono weight_mono) simp_all
  have b: "pending k m \<le> pending k (Suc m)"
    by (rule pending_mono) simp
  have c: "(m + 2) * (weight r (Suc m) + 3)
             = (m + 1) * (weight r (Suc m) + 3) + (weight r (Suc m) + 3)"
    by (simp add: algebra_simps)
  show ?thesis unfolding c using a b by linarith
qed

lemma star_step: "pending (R r # Prog l # R (Star r) # k) l < pending (R (Star r) # k) l"
proof (cases l)
  case 0
  then show ?thesis by simp
next
  case (Suc m)
  then show ?thesis using loop_weight[of r m k] by simp
qed

lemma lazy_step: "pending (R r # Prog l # R (LazyStar r) # k) l < pending (R (LazyStar r) # k) l"
proof (cases l)
  case 0
  then show ?thesis by simp
next
  case (Suc m)
  then show ?thesis using loop_weight[of r m k] by simp
qed

text \<open>
  \<open>run ic k cu c\<close> matches the frames \<open>k\<close> at the cursor \<open>cu\<close> with the captures \<open>c\<close>
  and gives the first success in the order of backtracking: the left alternative before
  the right one, one more iteration before none for a greedy quantifier, and the other way
  round for a lazy one.
\<close>

function run :: "bool \<Rightarrow> frame list \<Rightarrow> cursor \<Rightarrow> caps \<Rightarrow> (cursor \<times> caps) option" where
  "run ic [] cu c = Some (cu, c)"
| "run ic (R Eps # k) cu c = run ic k cu c"
| "run ic (R (Lit a) # k) (p, []) c = None"
| "run ic (R (Lit a) # k) (p, x # t) c =
     (if canon ic a = canon ic x then run ic k (Some x, t) c else None)"
| "run ic (R (Cls neg items) # k) (p, []) c = None"
| "run ic (R (Cls neg items) # k) (p, x # t) c =
     (if list_ex (inItem ic x) items \<noteq> neg then run ic k (Some x, t) c else None)"
| "run ic (R (Seq r1 r2) # k) cu c = run ic (R r1 # R r2 # k) cu c"
| "run ic (R (Alt r1 r2) # k) cu c =
     (case run ic (R r1 # k) cu c of Some m \<Rightarrow> Some m | None \<Rightarrow> run ic (R r2 # k) cu c)"
| "run ic (R (Opt r) # k) cu c =
     (case run ic (R r # Prog (length (snd cu)) # k) cu c of Some m \<Rightarrow> Some m
      | None \<Rightarrow> run ic k cu c)"
| "run ic (R (Star r) # k) cu c =
     (case run ic (R r # Prog (length (snd cu)) # R (Star r) # k) cu c of Some m \<Rightarrow> Some m
      | None \<Rightarrow> run ic k cu c)"
| "run ic (R (LazyStar r) # k) cu c =
     (case run ic k cu c of Some m \<Rightarrow> Some m
      | None \<Rightarrow> run ic (R r # Prog (length (snd cu)) # R (LazyStar r) # k) cu c)"
| "run ic (R (Grp n r) # k) cu c = run ic (R r # EndGrp n (snd cu) # k) cu c"
| "run ic (R Bol # k) cu c = (if fst cu = None then run ic k cu c else None)"
| "run ic (R Eol # k) cu c = (if snd cu = [] then run ic k cu c else None)"
| "run ic (R WordB # k) cu c =
     (if (case fst cu of None \<Rightarrow> False | Some a \<Rightarrow> isWordChar a)
         \<noteq> (case snd cu of [] \<Rightarrow> False | b # _ \<Rightarrow> isWordChar b)
      then run ic k cu c else None)"
| "run ic (Prog n # k) cu c = (if length (snd cu) < n then run ic k cu c else None)"
| "run ic (EndGrp n s0 # k) cu c =
     run ic k cu (c(n := Some (take (length s0 - length (snd cu)) s0)))"
  by pat_completeness auto
termination
proof (relation "measure (\<lambda>(ic, k, cu, c). pending k (length (snd cu)))", goal_cases)
  case (3 ic a k p x t c)
  then show ?case using pending_pred[of k "Suc (length t)"] by simp
next
  case (4 ic neg items k p x t c)
  then show ?case using pending_pred[of k "Suc (length t)"] by simp
next
  case (8 ic r k cu c)
  then show ?case using pending_pred[of k "length (snd cu)"] by simp
next
  case (10 ic r k cu c)
  then show ?case by (simp only: in_measure prod.case star_step)
next
  case (13 ic r k cu c)
  then show ?case by (simp only: in_measure prod.case lazy_step)
qed simp_all

text \<open>
  A match attempt at one position: the matched text, the captures and the cursor after the
  match.
\<close>

definition matchAt :: "bool \<Rightarrow> re \<Rightarrow> cursor \<Rightarrow> (jsstring \<times> caps \<times> cursor) option" where
  "matchAt ic r cu =
     (case run ic [R r] cu (\<lambda>_. None) of
        None \<Rightarrow> None
      | Some m \<Rightarrow> Some (take (length (snd cu) - length (snd (fst m))) (snd cu), snd m, fst m))"

text \<open>The first match at or after a position (\<^verbatim>\<open>exec\<close>, \<^verbatim>\<open>test\<close>, \<^verbatim>\<open>String.match\<close>).\<close>

fun exec :: "bool \<Rightarrow> re \<Rightarrow> cursor \<Rightarrow> (jsstring \<times> caps \<times> cursor) option" where
  "exec ic r (p, []) = matchAt ic r (p, [])"
| "exec ic r (p, x # t) =
     (case matchAt ic r (p, x # t) of Some m \<Rightarrow> Some m | None \<Rightarrow> exec ic r (Some x, t))"

definition test :: "bool \<Rightarrow> re \<Rightarrow> jsstring \<Rightarrow> bool" where
  "test ic r s = (exec ic r (None, s) \<noteq> None)"

text \<open>A replacement string: text and references \<^verbatim>\<open>$n\<close> to capture groups.\<close>

datatype tpart = Txt jsstring | Ref nat

fun expand :: "tpart list \<Rightarrow> caps \<Rightarrow> jsstring" where
  "expand [] c = []"
| "expand (Txt t # ps) c = t @ expand ps c"
| "expand (Ref n # ps) c = (case c n of None \<Rightarrow> [] | Some g \<Rightarrow> g) @ expand ps c"

text \<open>\<^verbatim>\<open>s.replace(r, tmpl)\<close> for a pattern without the \<^verbatim>\<open>g\<close> flag: the first match only.\<close>

fun replaceFirst :: "bool \<Rightarrow> re \<Rightarrow> tpart list \<Rightarrow> cursor \<Rightarrow> jsstring" where
  "replaceFirst ic r tmpl (p, []) =
     (case matchAt ic r (p, []) of None \<Rightarrow> [] | Some m \<Rightarrow> expand tmpl (fst (snd m)))"
| "replaceFirst ic r tmpl (p, x # t) =
     (case matchAt ic r (p, x # t) of
        None \<Rightarrow> x # replaceFirst ic r tmpl (Some x, t)
      | Some m \<Rightarrow> expand tmpl (fst (snd m)) @ snd (snd (snd m)))"

text \<open>
  \<^verbatim>\<open>s.replace(r, tmpl)\<close> for a pattern with the \<^verbatim>\<open>g\<close> flag: every match, from left to
  right; after an empty match the next code unit is copied and the search goes on behind
  it.
\<close>

function replaceAll :: "bool \<Rightarrow> re \<Rightarrow> tpart list \<Rightarrow> cursor \<Rightarrow> jsstring" where
  "replaceAll ic r tmpl (p, []) =
     (case matchAt ic r (p, []) of None \<Rightarrow> [] | Some m \<Rightarrow> expand tmpl (fst (snd m)))"
| "replaceAll ic r tmpl (p, x # t) =
     (case matchAt ic r (p, x # t) of
        None \<Rightarrow> x # replaceAll ic r tmpl (Some x, t)
      | Some m \<Rightarrow>
          if length (snd (snd (snd m))) < Suc (length t)
          then expand tmpl (fst (snd m)) @ replaceAll ic r tmpl (snd (snd m))
          else expand tmpl (fst (snd m)) @ x # replaceAll ic r tmpl (Some x, t))"
  by pat_completeness auto
termination
  by (relation "measure (\<lambda>(ic, r, tmpl, cu). length (snd cu))") auto

text \<open>
  The loop \<^verbatim>\<open>while ((match = r.exec(text)) !== null) { ... }\<close> over a pattern with the
  \<^verbatim>\<open>g\<close> flag, as the list of its matches.  \<^verbatim>\<open>exec\<close> searches from \<^verbatim>\<open>lastIndex\<close> and
  moves it to the end of the match; a match that leaves \<^verbatim>\<open>lastIndex\<close> where it was is
  found again for ever, and the loop does not end: that is the value \<open>None\<close>.
\<close>

function execAll :: "bool \<Rightarrow> re \<Rightarrow> cursor \<Rightarrow> (jsstring \<times> caps) list option" where
  "execAll ic r cu =
     (case exec ic r cu of
        None \<Rightarrow> Some []
      | Some m \<Rightarrow>
          if length (snd (snd (snd m))) < length (snd cu)
          then map_option ((#) (fst m, fst (snd m))) (execAll ic r (snd (snd m)))
          else None)"
  by pat_completeness auto
termination
  by (relation "measure (\<lambda>(ic, r, cu). length (snd cu))") auto

declare execAll.simps [simp del]

text \<open>Pattern syntax used below.\<close>

definition ch :: "char \<Rightarrow> nat" where
  "ch c = of_char c"

fun lits :: "jsstring \<Rightarrow> re" where
  "lits [] = Eps"
| "lits [x] = Lit x"
| "lits (x # xs) = Seq (Lit x) (lits xs)"

definition word :: "string \<Rightarrow> re" where
  "word s = lits (js s)"

fun seqs :: "re list \<Rightarrow> re" where
  "seqs [] = Eps"
| "seqs [r] = r"
| "seqs (r # rs) = Seq r (seqs rs)"

fun alts :: "re list \<Rightarrow> re" where
  "alts [] = Cls False []"
| "alts [r] = r"
| "alts (r # rs) = Alt r (alts rs)"

definition words :: "string list \<Rightarrow> re" where
  "words ws = alts (map word ws)"

definition Plus :: "re \<Rightarrow> re" where
  "Plus r = Seq r (Star r)"

definition digit :: re where
  "digit = Cls False [Digits]"

definition space :: re where
  "space = Cls False [Spaces]"

section \<open>Crawler: selection of subpages (crawler.js)\<close>

definition INTERESTING_KEYWORDS :: "jsstring list" where
  "INTERESTING_KEYWORDS = map js [''happy'', ''special'', ''menu'', ''drink'', ''hour'',
     ''deal'', ''promo'', ''offer'', ''food'']"

definition MAX_PAGES_PER_VENUE :: nat where
  "MAX_PAGES_PER_VENUE = 5"

text \<open>An anchor element of the homepage: its resolved \<^verbatim>\<open>href\<close> and its text content.\<close>

record anchor =
  href :: jsstring
  textContent :: jsstring

text \<open>
  \<^verbatim>\<open>findRelevantLinks(page, baseUrl)\<close>.  The page is given by the anchors that
  \<^verbatim>\<open>document.querySelectorAll('a[href]')\<close> finds, or \<open>None\<close> when evaluating in the page
  throws.  \<open>hostname\<close> stands for \<^verbatim>\<open>new URL(u).hostname\<close> of the runtime, \<open>None\<close> when the
  constructor throws.  Both \<^verbatim>\<open>catch\<close> blocks are branches of the model.
\<close>

definition relevant :: "jsstring \<times> jsstring \<Rightarrow> bool" where
  "relevant link = (case link of (lowerHref, lowerText) \<Rightarrow>
     list_ex (\<lambda>kw. includes_str lowerHref kw \<or> includes_str lowerText kw) INTERESTING_KEYWORDS)"

definition findRelevantLinks ::
  "(jsstring \<Rightarrow> jsstring option) \<Rightarrow> anchor list option \<Rightarrow> jsstring \<Rightarrow> jsstring list" where
  "findRelevantLinks hostname page baseUrl =
     (case page of
        None \<Rightarrow> []
      | Some anchors \<Rightarrow>
          (let links = map fst (filter (\<lambda>link. relevant (toLowerCase (fst link), snd link))
                         (map (\<lambda>a. (href a, toLowerCase (trim (textContent a)))) anchors))
           in case hostname baseUrl of
                None \<Rightarrow> []
              | Some base \<Rightarrow>
                  take MAX_PAGES_PER_VENUE
                    (filter (\<lambda>h. case hostname h of
                                   None \<Rightarrow> False
                                 | Some u \<Rightarrow> u = base \<or> endsWith u (js ''.'' @ base))
                       (new_Set links))))"

section \<open>Discovery (the scraper)\<close>

text \<open>\<^verbatim>\<open>slugify(name)\<close>: lower case, every run of characters outside \<^verbatim>\<open>[a-z0-9]\<close>
  replaced by one hyphen, then a hyphen at the start and one at the end removed.\<close>

definition nonAlnumRun :: re where
  "nonAlnumRun = Plus (Cls True [Range (ch CHR ''a'') (ch CHR ''z''), Range (ch CHR ''0'') (ch CHR ''9'')])"

definition edgeHyphen :: re where
  "edgeHyphen = Grp 1 (Alt (Seq Bol (Lit (ch CHR ''-''))) (Seq (Lit (ch CHR ''-'')) Eol))"

definition slugify :: "jsstring \<Rightarrow> jsstring" where
  "slugify name =
     replaceAll False edgeHyphen []
       (None, replaceAll False nonAlnumRun [Txt (js ''-'')] (None, toLowerCase name))"

text \<open>A result card of the live scrape, and a venue as written to \<^verbatim>\<open>venues.json\<close>.\<close>

record card =
  c_name :: jsstring
  c_address :: jsstring
  c_neighborhood :: jsstring
  c_website :: "jsstring option"

record venue =
  v_id :: jsstring
  v_name :: jsstring
  v_address :: jsstring
  v_neighborhood :: jsstring
  v_website :: "jsstring option"
  v_scraped_at :: jsstring

definition lodoVenues :: "(jsstring \<times> jsstring \<times> jsstring option) list" where
  "lodoVenues =
    [(js ''Falling Rock Tap House'', js ''1919 Blake St, Denver, CO 80202'', Some (js ''https://fallingrocktaphouse.com'')),
     (js ''Wynkoop Brewing Company'', js ''1634 18th St, Denver, CO 80202'', Some (js ''https://wynkoop.com'')),
     (js ''Terminal Bar'', js ''1701 Wynkoop St, Denver, CO 80202'', Some (js ''https://theterminalbar.com'')),
     (js ''Herb'' @ [0x27] @ js ''s Hideout'', js ''2057 Larimer St, Denver, CO 80205'', Some (js ''https://herbshideout.com'')),
     (js ''The Cruise Room'', js ''1600 17th St, Denver, CO 80202'', Some (js ''https://thecruiseroom.com'')),
     (js ''Retro Room'', js ''1801 Wynkoop St, Denver, CO 80202'', None),
     (js ''Viewhouse Eatery'', js ''2015 Market St, Denver, CO 80205'', Some (js ''https://viewhouse.com'')),
     (js ''Nallen'' @ [0x27] @ js ''s Irish Pub'', js ''1429 Market St, Denver, CO 80202'', Some (js ''https://nallensirishpub.com'')),
     (js ''Star Bar Denver'', js ''2137 Larimer St, Denver, CO 80205'', Some (js ''https://starbardenver.com'')),
     (js ''The 1UP - LoDo'', js ''1925 Blake St, Denver, CO 80202'', Some (js ''https://the1up.com'')),
     (js ''Great Divide Brewing'', js ''2201 Arapahoe St, Denver, CO 80205'', Some (js ''https://greatdivide.com'')),
     (js ''Jagged Mountain Craft Brewery'', js ''1139 20th St, Denver, CO 80202'', Some (js ''https://jaggedmountainbrewery.com''))]"

text \<open>The eleventh name is written in the source with the two code units U+00C3 and U+00B1.\<close>

definition lohiVenues :: "(jsstring \<times> jsstring \<times> jsstring option) list" where
  "lohiVenues =
    [(js ''Linger'', js ''2030 W 30th Ave, Denver, CO 80211'', Some (js ''https://lingerdenver.com'')),
     (js ''LoHi SteakBar'', js ''3200 Tejon St, Denver, CO 80211'', Some (js ''https://lohisteakbar.com'')),
     (js ''Avanti Food & Beverage'', js ''3200 Pecos St, Denver, CO 80211'', Some (js ''https://avantifandb.com'')),
     (js ''Little Man Ice Cream'', js ''2620 16th St, Denver, CO 80211'', Some (js ''https://littlemanicecream.com'')),
     (js ''Williams & Graham'', js ''3160 Tejon St, Denver, CO 80211'', Some (js ''https://williamsandgraham.com'')),
     (js ''Highland Tap and Burger'', js ''2219 W 32nd Ave, Denver, CO 80211'', Some (js ''https://highlandtapandburger.com'')),
     (js ''Ale House at Amato'' @ [0x27] @ js ''s'', js ''2501 16th St, Denver, CO 80211'', Some (js ''https://alehousedenver.com'')),
     (js ''Reiver'' @ [0x27] @ js ''s Bar'', js ''1085 S Gaylord St, Denver, CO 80209'', None),
     (js ''Garibaldi Mexican Bistro'', js ''3055 Zuni St, Denver, CO 80211'', Some (js ''https://garibaldimexican.com'')),
     (js ''El Camino Community Tavern'', js ''3628 W 32nd Ave, Denver, CO 80211'', Some (js ''https://elcaminotavern.com'')),
     (js ''Se'' @ [0xC3, 0xB1] @ js ''or Bear'', js ''3301 Tejon St, Denver, CO 80211'', Some (js ''https://senorbeardenver.com'')),
     (js ''The Way Back'', js ''3279 Navajo St, Denver, CO 80211'', Some (js ''https://thewaybackdenver.com''))]"

text \<open>\<^verbatim>\<open>getFallbackVenues()\<close>; \<open>ts\<close> is the time stamp that \<^verbatim>\<open>now()\<close> returns.\<close>

definition fallbackVenue :: "jsstring \<Rightarrow> jsstring \<Rightarrow> jsstring \<times> jsstring \<times> jsstring option \<Rightarrow> venue" where
  "fallbackVenue ts nbhd v =
     \<lparr>v_id = slugify (fst v), v_name = fst v, v_address = fst (snd v), v_neighborhood = nbhd,
      v_website = snd (snd v), v_scraped_at = ts\<rparr>"

definition getFallbackVenues :: "jsstring \<Rightarrow> venue list" where
  "getFallbackVenues ts =
     map (fallbackVenue ts (js ''LoDo'')) lodoVenues @ map (fallbackVenue ts (js ''LoHi'')) lohiVenues"

text \<open>
  The filter that removes duplicates by id: \<open>seen\<close> is the set of ids met so far.
\<close>

fun dedupe :: "jsstring set \<Rightarrow> venue list \<Rightarrow> venue list" where
  "dedupe seen [] = []"
| "dedupe seen (v # vs) =
     (if v_id v \<in> seen then dedupe seen vs else v # dedupe (insert (v_id v) seen) vs)"

definition scrapedVenue :: "jsstring \<Rightarrow> card \<Rightarrow> venue" where
  "scrapedVenue ts v =
     \<lparr>v_id = slugify (c_name v), v_name = c_name v,
      v_address = (if c_address v \<noteq> [] then c_address v else []),
      v_neighborhood = c_neighborhood v, v_website = c_website v, v_scraped_at = ts\<rparr>"

text \<open>
  The main function of the scraper, up to the array it writes to \<^verbatim>\<open>venues.json\<close>.
  \<open>scraped\<close> is what \<^verbatim>\<open>scrapeGoogleMaps()\<close> returns, \<open>None\<close> when it throws.
\<close>

definition scraper_main :: "jsstring \<Rightarrow> card list option \<Rightarrow> venue list" where
  "scraper_main ts scraped =
     (case scraped of
        None \<Rightarrow> getFallbackVenues ts
      | Some cards \<Rightarrow>
          if length cards \<ge> 10 then dedupe {} (map (scrapedVenue ts) cards)
          else getFallbackVenues ts)"

section \<open>Extractor\<close>

definition DAYS_OF_WEEK :: "jsstring list" where
  "DAYS_OF_WEEK = map js [''Monday'', ''Tuesday'', ''Wednesday'', ''Thursday'', ''Friday'',
     ''Saturday'', ''Sunday'']"

subsection \<open>Patterns\<close>

text \<open>\<^verbatim>\<open>\d{1,2}(?::\d{2})?\<close>\<close>

definition clock :: re where
  "clock = seqs [digit, Opt digit, Opt (seqs [Lit (ch CHR '':''), digit, digit])]"

text \<open>\<^verbatim>\<open>(\d{1,2}(?::\d{2})?\s*(?:...)?)\s*[-\<dots>to]+\s*(\d{1,2}(?::\d{2})?\s*(?:...)?)\<close>, for
  the given alternatives of the AM/PM marker; the class holds the hyphen, U+2013, t and o.\<close>

definition timeOfDay :: "string list \<Rightarrow> re" where
  "timeOfDay markers = seqs [clock, Star space, Opt (words markers)]"

definition timeRange :: "string list \<Rightarrow> re" where
  "timeRange markers =
     seqs [Grp 1 (timeOfDay markers), Star space,
           Plus (Cls False [One (ch CHR ''-''), One 0x2013, One (ch CHR ''t''), One (ch CHR ''o'')]),
           Star space, Grp 2 (timeOfDay markers)]"

definition TIME_PATTERNS :: "re list" where
  "TIME_PATTERNS =
     [timeRange [''am'', ''pm'', ''AM'', ''PM''],
      seqs [word ''happy'', Star space, word ''hour'', Opt (Cls False [One (ch CHR ''s'')]),
            Star space, Opt (Cls False [One (ch CHR '':''), One (ch CHR ''.'')]), Star space,
            timeRange [''am'', ''pm'', ''AM'', ''PM'']]]"

text \<open>The pattern of \<open>extractTimes\<close>: \<^verbatim>\<open>happy\s*hour[^.]*?\<close> and a time range.\<close>

definition happyHourContext :: re where
  "happyHourContext =
     seqs [word ''happy'', Star space, word ''hour'', LazyStar (Cls True [One (ch CHR ''.'')]),
           timeRange [''am'', ''pm'', ''a.m.'', ''p.m.'']]"

definition dayName :: re where
  "dayName = words [''monday'', ''tuesday'', ''wednesday'', ''thursday'', ''friday'',
     ''saturday'', ''sunday'']"

definition dash :: re where
  "dash = Cls False [One (ch CHR ''-''), One 0x2013]"

definition rangePattern :: re where
  "rangePattern =
     seqs [Grp 1 dayName, Star space, Opt dash, Star space,
           Opt (words [''through'', ''thru'', ''to'']), Star space, Opt dash, Star space,
           Grp 2 dayName]"

definition dayPattern :: re where
  "dayPattern =
     seqs [WordB,
           Grp 1 (alts
             [Seq (word ''mon'') (Opt (word ''day'')),
              Seq (word ''tue'') (Opt (Seq (word ''s'') (Opt (word ''day'')))),
              Seq (word ''wed'') (Opt (word ''nesday'')),
              Seq (word ''thu'') (Opt (Seq (word ''rs'') (Opt (word ''day'')))),
              Seq (word ''fri'') (Opt (word ''day'')),
              Seq (word ''sat'') (Opt (word ''urday'')),
              Seq (word ''sun'') (Opt (word ''day''))]),
           WordB]"

text \<open>\<^verbatim>\<open>\$\d+(?:\.\d{2})?\<close>\<close>

definition price :: re where
  "price = seqs [Lit (ch CHR ''$''), Plus digit, Opt (seqs [Lit (ch CHR ''.''), digit, digit])]"

definition halfOff :: re where
  "halfOff = seqs [word ''half'', Opt (Cls False [Spaces, One (ch CHR ''-'')]),
                   words [''off'', ''price'']]"

definition FOOD_PATTERNS :: "re list" where
  "FOOD_PATTERNS =
     [seqs [price, Plus space, Opt (Seq (word ''off'') (Plus space)),
            words [''appetizer'', ''app'', ''wing'', ''taco'', ''nacho'', ''slider'', ''fries'',
                   ''pizza'', ''burger'', ''bite'', ''snack'', ''plate'', ''food'']],
      seqs [halfOff, Plus space,
            words [''appetizer'', ''app'', ''food'', ''menu'', ''bite'', ''snack'']],
      seqs [words [''appetizer'', ''app'', ''food'', ''bite'', ''snack''], Opt (Lit (ch CHR ''s'')),
            Plus space, Opt (Seq (word ''for'') (Plus space)), Lit (ch CHR ''$''), Plus digit],
      seqs [price, Plus space,
            words [''taco'', ''wing'', ''slider'', ''pizza'', ''nacho'', ''burger'', ''bite'']],
      seqs [words [''free'', ''complimentary''], Plus space,
            words [''appetizer'', ''food'', ''snack'', ''bite'', ''pizza'']],
      seqs [words [''food'', ''kitchen''], Plus space, word ''special'']]"

definition DRINK_PATTERNS :: "re list" where
  "DRINK_PATTERNS =
     [seqs [price, Plus space, Opt (Seq (word ''off'') (Plus space)),
            words [''beer'', ''draft'', ''pint'', ''well'', ''cocktail'', ''wine'', ''margarita'',
                   ''marg'', ''shot'', ''drink'', ''spirit'', ''pour'', ''rail'', ''domestic'',
                   ''craft'', ''import'', ''ipa'', ''lager'', ''ale'']],
      seqs [halfOff, Plus space,
            words [''beer'', ''draft'', ''pint'', ''well'', ''cocktail'', ''wine'', ''drink'',
                   ''bottle'', ''glass'']],
      seqs [words [''beer'', ''draft'', ''pint'', ''well'', ''cocktail'', ''wine'', ''margarita'',
                   ''drink'', ''pour''], Opt (Lit (ch CHR ''s'')),
            Plus space, Opt (Seq (word ''for'') (Plus space)), Lit (ch CHR ''$''), Plus digit],
      seqs [price, Plus space,
            words [''domestic'', ''craft'', ''import'', ''house'', ''select'', ''featured''],
            Plus space, words [''beer'', ''draft'', ''pint'', ''wine'', ''cocktail'']],
      seqs [Alt (seqs [word ''buy'', Plus space, word ''one'']) (word ''bogo''), Plus space,
            Opt (seqs [word ''get'', Plus space, word ''one'', Plus space]),
            words [''free'', ''half'']],
      seqs [words [''drink'', ''cocktail'', ''beer'', ''wine''], Plus space, word ''special'']]"

subsection \<open>Days\<close>

text \<open>\<^verbatim>\<open>normalizeDay(dayStr)\<close>; \<open>None\<close> is \<^verbatim>\<open>null\<close>.\<close>

definition normalizeDay :: "jsstring \<Rightarrow> jsstring option" where
  "normalizeDay dayStr =
     (let lower = trim (toLowerCase dayStr)
      in find (\<lambda>day. prefix (take 3 lower) (toLowerCase day)) DAYS_OF_WEEK)"

text \<open>
  A capture group of a match, as \<^verbatim>\<open>match[n]\<close>.  In each pattern whose groups the
  program reads, every group takes part in every match.
\<close>

definition group :: "caps \<Rightarrow> nat \<Rightarrow> jsstring" where
  "group c n = (case c n of None \<Rightarrow> [] | Some g \<Rightarrow> g)"

text \<open>
  The loop \<^verbatim>\<open>for (let i = startIdx; i !== (endIdx + 1) % 7; i = (i + 1) % 7)\<close>, which
  adds \<^verbatim>\<open>DAYS_OF_WEEK[i]\<close> to the set.  Both indices come from \<^verbatim>\<open>indexOf\<close> on the
  seven days and are checked to be at least 0, so \<open>i\<close> stays within 0 to 6.
\<close>

lemma cyclic_step:
  fixes i e :: int
  assumes "0 \<le> e" "e < 7" "0 \<le> i" "i < 7" "i \<noteq> e"
  shows "(e - (i + 1) mod 7) mod 7 < (e - i) mod 7"
proof -
  have "i \<in> {0, 1, 2, 3, 4, 5, 6}" using assms by auto
  moreover have "e \<in> {0, 1, 2, 3, 4, 5, 6}" using assms by auto
  ultimately show ?thesis using assms(5) by auto
qed

lemma cyclic_step_nat:
  fixes i endIdx :: int
  assumes "i \<noteq> (endIdx + 1) mod 7" "0 \<le> i" "i < 7"
  shows "nat (((endIdx + 1) mod 7 - (i + 1) mod 7) mod 7) < nat (((endIdx + 1) mod 7 - i) mod 7)"
proof -
  have "((endIdx + 1) mod 7 - (i + 1) mod 7) mod 7 < ((endIdx + 1) mod 7 - i) mod 7"
    using assms by (intro cyclic_step) simp_all
  moreover have "0 \<le> ((endIdx + 1) mod 7 - (i + 1) mod 7) mod 7" by simp
  ultimately show ?thesis by linarith
qed

function rangeLoop :: "int \<Rightarrow> int \<Rightarrow> jsstring list \<Rightarrow> jsstring list" where
  "rangeLoop i endIdx days =
     (if i \<noteq> (endIdx + 1) mod 7 \<and> 0 \<le> i \<and> i < 7
      then rangeLoop ((i + 1) mod 7) endIdx (set_add days (DAYS_OF_WEEK ! nat i))
      else days)"
  by pat_completeness auto
termination
proof (relation "measure (\<lambda>(i, endIdx, days). nat (((endIdx + 1) mod 7 - i) mod 7))",
    goal_cases)
  case 1
  show ?case by simp
next
  case (2 i endIdx days)
  then have "nat (((endIdx + 1) mod 7 - (i + 1) mod 7) mod 7)
               < nat (((endIdx + 1) mod 7 - i) mod 7)"
    by (intro cyclic_step_nat) simp_all
  then show ?case by (simp only: in_measure prod.case)
qed

declare rangeLoop.simps [simp del]

text \<open>The body of the loop over the matches of \<open>rangePattern\<close>.\<close>

definition addRange :: "jsstring list \<Rightarrow> jsstring \<times> caps \<Rightarrow> jsstring list" where
  "addRange days m =
     (case normalizeDay (group (snd m) 1) of
        None \<Rightarrow> days
      | Some start \<Rightarrow>
          (case normalizeDay (group (snd m) 2) of
             None \<Rightarrow> days
           | Some end \<Rightarrow>
               (let startIdx = indexOf DAYS_OF_WEEK start; endIdx = indexOf DAYS_OF_WEEK end
                in if startIdx \<ge> 0 \<and> endIdx \<ge> 0
                   then set_add (rangeLoop startIdx endIdx days) (DAYS_OF_WEEK ! nat endIdx)
                   else days)))"

text \<open>The body of the loop over the matches of \<open>dayPattern\<close>.\<close>

definition addDay :: "jsstring list \<Rightarrow> jsstring \<times> caps \<Rightarrow> jsstring list" where
  "addDay days m =
     (case normalizeDay (group (snd m) 1) of None \<Rightarrow> days | Some day \<Rightarrow> set_add days day)"

text \<open>
  \<^verbatim>\<open>extractDays(text)\<close>.  The outer \<open>option\<close> is \<open>None\<close> when one of the two loops over
  matches does not end; the inner one is \<open>None\<close> for \<^verbatim>\<open>null\<close>.
\<close>

definition extractDays :: "jsstring \<Rightarrow> jsstring list option option" where
  "extractDays text =
     (let lower = toLowerCase text
      in if includes_str lower (js ''daily'') \<or> includes_str lower (js ''every day'')
            \<or> includes_str lower (js ''7 days'')
         then Some (Some DAYS_OF_WEEK)
         else if includes_str lower (js ''weekday'')
         then Some (Some (map js [''Monday'', ''Tuesday'', ''Wednesday'', ''Thursday'', ''Friday'']))
         else
           (let days0 = (if includes_str lower (js ''weekend'')
                         then set_add (set_add [] (js ''Saturday'')) (js ''Sunday'') else [])
            in case execAll True rangePattern (None, text) of
                 None \<Rightarrow> None
               | Some ranges \<Rightarrow>
                   (case execAll True dayPattern (None, text) of
                      None \<Rightarrow> None
                    | Some singles \<Rightarrow>
                        (let days = foldl addDay (foldl addRange days0 ranges) singles
                         in Some (if length days > 0 then Some days else None)))))"

subsection \<open>Times\<close>

definition meridiem :: re where
  "meridiem = words [''AM'', ''PM'']"

text \<open>\<^verbatim>\<open>normalizeTime(timeStr)\<close>; the argument is \<open>None\<close> for \<^verbatim>\<open>undefined\<close>.\<close>

definition normalizeTime :: "jsstring option \<Rightarrow> jsstring option" where
  "normalizeTime timeStr =
     (case timeStr of
        None \<Rightarrow> None
      | Some s \<Rightarrow>
          if s = [] then None
          else
            (let t = toUpperCase (trim s);
                 t = (if test True (seqs [Bol, digit, Opt digit, Grp 1 meridiem, Eol]) t
                      then replaceFirst True (Grp 1 meridiem) [Txt (js '':00 ''), Ref 1] (None, t)
                      else t);
                 t = (if test True (seqs [Bol, digit, Opt digit, Star space, Grp 1 meridiem, Eol]) t
                      then replaceFirst True (seqs [Grp 1 (Plus digit), Star space, Grp 2 meridiem])
                             [Ref 1, Txt (js '':00 ''), Ref 2] (None, t)
                      else t)
             in Some (replaceFirst True (seqs [Grp 1 digit, Grp 2 meridiem])
                        [Ref 1, Txt (js '' ''), Ref 2] (None, t))))"

text \<open>The loop of \<open>extractTimes\<close> over \<open>TIME_PATTERNS\<close>, each searched from index 0.\<close>

fun firstTimeRange :: "re list \<Rightarrow> jsstring \<Rightarrow> jsstring option \<times> jsstring option" where
  "firstTimeRange [] text = (None, None)"
| "firstTimeRange (pattern # patterns) text =
     (case exec True pattern (None, text) of
        None \<Rightarrow> firstTimeRange patterns text
      | Some m \<Rightarrow> (normalizeTime (fst (snd m) 1), normalizeTime (fst (snd m) 2)))"

text \<open>\<^verbatim>\<open>extractTimes(text)\<close>: the pair of \<^verbatim>\<open>start_time\<close> and \<^verbatim>\<open>end_time\<close>.\<close>

definition extractTimes :: "jsstring \<Rightarrow> jsstring option \<times> jsstring option" where
  "extractTimes text =
     (case exec True happyHourContext (None, text) of
        None \<Rightarrow> firstTimeRange TIME_PATTERNS text
      | Some m \<Rightarrow> (normalizeTime (fst (snd m) 1), normalizeTime (fst (snd m) 2)))"

subsection \<open>Deals\<close>

fun dealsLoop :: "re list \<Rightarrow> jsstring \<Rightarrow> jsstring list \<Rightarrow> jsstring list option" where
  "dealsLoop [] text deals = Some deals"
| "dealsLoop (pattern # patterns) text deals =
     (case execAll True pattern (None, text) of
        None \<Rightarrow> None
      | Some ms \<Rightarrow> dealsLoop patterns text (foldl (\<lambda>d m. set_add d (trim (fst m))) deals ms))"

text \<open>\<^verbatim>\<open>extractDeals(text, patterns)\<close>, with the two layers of \<open>option\<close> of \<open>extractDays\<close>.\<close>

definition extractDeals :: "jsstring \<Rightarrow> re list \<Rightarrow> jsstring list option option" where
  "extractDeals text patterns =
     map_option (\<lambda>deals. if length deals > 0 then Some deals else None)
       (dealsLoop patterns text [])"

subsection \<open>Records\<close>

text \<open>A field of a happy-hour record: a string or an array of strings.\<close>

datatype jsvalue = Str jsstring | Arr "jsstring list"

record happy_hour =
  days :: jsvalue
  start_time :: jsvalue
  end_time :: jsvalue
  food_deals :: jsvalue
  drink_deals :: jsvalue

definition unknown :: jsvalue where
  "unknown = Str (js ''unknown'')"

text \<open>\<^verbatim>\<open>x || 'unknown'\<close> for an array or \<^verbatim>\<open>null\<close>, and for a string or \<^verbatim>\<open>null\<close>.\<close>

definition arrayOrUnknown :: "jsstring list option \<Rightarrow> jsvalue" where
  "arrayOrUnknown x = (case x of None \<Rightarrow> unknown | Some xs \<Rightarrow> Arr xs)"

definition stringOrUnknown :: "jsstring option \<Rightarrow> jsvalue" where
  "stringOrUnknown x = (case x of None \<Rightarrow> unknown | Some t \<Rightarrow> if t = [] then unknown else Str t)"

text \<open>\<^verbatim>\<open>extractHappyHourInfo(rawText)\<close>; \<open>None\<close> when a loop over matches does not end.\<close>

definition extractHappyHourInfo :: "jsstring \<Rightarrow> happy_hour option" where
  "extractHappyHourInfo rawText =
     (if rawText = [] \<or> includes_str rawText (js ''No website available'')
         \<or> includes_str rawText (js ''Unable to crawl'')
      then Some \<lparr>days = unknown, start_time = unknown, end_time = unknown,
                 food_deals = unknown, drink_deals = unknown\<rparr>
      else
        (case extractDays rawText of
           None \<Rightarrow> None
         | Some daysFound \<Rightarrow>
             (let times = extractTimes rawText
              in case extractDeals rawText FOOD_PATTERNS of
                   None \<Rightarrow> None
                 | Some foodDeals \<Rightarrow>
                     (case extractDeals rawText DRINK_PATTERNS of
                        None \<Rightarrow> None
                      | Some drinkDeals \<Rightarrow>
                          Some \<lparr>days = arrayOrUnknown daysFound,
                                start_time = stringOrUnknown (fst times),
                                end_time = stringOrUnknown (snd times),
                                food_deals = arrayOrUnknown foodDeals,
                                drink_deals = arrayOrUnknown drinkDeals\<rparr>))))"

text \<open>A record of \<^verbatim>\<open>happy_hours.json\<close>.\<close>

record result =
  r_id :: jsstring
  r_name :: jsstring
  r_address :: jsstring
  r_neighborhood :: jsstring
  r_website :: "jsstring option"
  r_happy_hour :: happy_hour

text \<open>
  What \<open>main\<close> finds under the name of a raw text file: nothing (\<^verbatim>\<open>existsSync\<close> is
  false); something that exists and that \<^verbatim>\<open>readFileSync\<close> cannot read, such as a
  directory or a file without read permission (it throws); or a text.
\<close>

datatype rawfile = Absent | Unreadable | Content jsstring

text \<open>
  What \<open>main\<close> finds as \<^verbatim>\<open>venues.json\<close>: no file; a file on which
  \<^verbatim>\<open>readFileSync\<close> or \<^verbatim>\<open>JSON.parse\<close> throws; or a list of venues.
\<close>

datatype venuesfile = NoVenuesFile | BadVenuesFile | Venues "venue list"

text \<open>
  How \<open>main\<close> ends without writing its array: \<^verbatim>\<open>process.exit\<close> with a status, or an
  exception, which nothing in \<open>main\<close> catches.
\<close>

datatype failure = Exit nat | Uncaught

text \<open>The raw text of a venue: empty when there is no file.\<close>

definition readRaw :: "rawfile \<Rightarrow> failure + jsstring" where
  "readRaw f = (case f of Absent \<Rightarrow> Inr [] | Unreadable \<Rightarrow> Inl Uncaught | Content t \<Rightarrow> Inr t)"

text \<open>
  The loop of the extractor's \<open>main\<close> over the venues.  \<open>raw\<close> gives what is found in
  \<^verbatim>\<open>data/raw\<close> under a file name.  The result is \<open>None\<close> when the loop does not end.
\<close>

fun extractAll :: "(jsstring \<Rightarrow> rawfile) \<Rightarrow> venue list \<Rightarrow> (failure + result list) option" where
  "extractAll raw [] = Some (Inr [])"
| "extractAll raw (venue # venues) =
     (case readRaw (raw (v_id venue @ js ''.txt'')) of
        Inl e \<Rightarrow> Some (Inl e)
      | Inr rawText \<Rightarrow>
          (case extractHappyHourInfo rawText of
             None \<Rightarrow> None
           | Some happyHour \<Rightarrow>
               (case extractAll raw venues of
                  None \<Rightarrow> None
                | Some (Inl e) \<Rightarrow> Some (Inl e)
                | Some (Inr results) \<Rightarrow>
                    Some (Inr (\<lparr>r_id = v_id venue, r_name = v_name venue,
                                 r_address = v_address venue,
                                 r_neighborhood = v_neighborhood venue,
                                 r_website = v_website venue,
                                 r_happy_hour = happyHour\<rparr> # results)))))"

text \<open>
  The extractor's \<open>main\<close>, up to the array it writes to \<^verbatim>\<open>happy_hours.json\<close>
  (\<open>Inr\<close>).  Without \<^verbatim>\<open>venues.json\<close> the process exits with status 1.  The result is
  \<open>None\<close> when \<open>main\<close> does not return.
\<close>

definition extractor_main ::
  "venuesfile \<Rightarrow> (jsstring \<Rightarrow> rawfile) \<Rightarrow> (failure + result list) option" where
  "extractor_main venuesFile raw =
     (case venuesFile of
        NoVenuesFile \<Rightarrow> Some (Inl (Exit 1))
      | BadVenuesFile \<Rightarrow> Some (Inl Uncaught)
      | Venues venues \<Rightarrow> extractAll raw venues)"

section \<open>Frontend: the filter of App\<close>




section \<open>Patterns that cannot match the empty string\<close>

text \<open>
  \<open>nullable r\<close> is a syntactic bound: a pattern that is not nullable consumes at least one
  code unit in every match.  For such a pattern the loop over \<^verbatim>\<open>exec\<close> ends.
\<close>

fun nullable :: "re \<Rightarrow> bool" where
  "nullable Eps = True"
| "nullable (Lit a) = False"
| "nullable (Cls neg items) = False"
| "nullable (Seq r1 r2) = (nullable r1 \<and> nullable r2)"
| "nullable (Alt r1 r2) = (nullable r1 \<or> nullable r2)"
| "nullable (Opt r) = True"
| "nullable (Star r) = True"
| "nullable (LazyStar r) = True"
| "nullable (Grp n r) = nullable r"
| "nullable Bol = True"
| "nullable Eol = True"
| "nullable WordB = True"

fun consuming :: "frame \<Rightarrow> bool" where
  "consuming (R r) = (\<not> nullable r)"
| "consuming (Prog n) = False"
| "consuming (EndGrp n s) = False"

section \<open>Predicates of the specification\<close>


text \<open>
  On ASCII text the lower-case form is independent of any table: the capital letters A to Z
  become a to z and nothing else changes.  Two strings are equal up to the case of their
  letters when they have the same length and agree, position by position, after that.
\<close>

definition asciiLower :: "nat \<Rightarrow> nat" where
  "asciiLower c = (if 0x41 \<le> c \<and> c \<le> 0x5A then c + 0x20 else c)"



text \<open>A set of days as the extractor accumulates it: weekday names without repetition.\<close>

definition dayset :: "jsstring list \<Rightarrow> bool" where
  "dayset ds = (distinct ds \<and> set ds \<subseteq> set DAYS_OF_WEEK)"




text \<open>
  The day-indicating phrases of the specification, read on the text position by position.
  \<open>cursors cu\<close> lists the positions from \<open>cu\<close> to the end of the text, each with the
  code unit before it; \<open>advance cu n\<close> is the position \<open>n\<close> code units further on;
  \<open>boundary\<close> is a word boundary: of the code units before and after the position exactly
  one is a letter, a digit or an underscore.  \<open>startsWith_ci s w\<close>: the text \<open>s\<close> starts
  with the word \<open>w\<close>, up to the case of ASCII letters.
\<close>

fun cursors :: "cursor \<Rightarrow> cursor list" where
  "cursors (p, []) = [(p, [])]"
| "cursors (p, x # t) = (p, x # t) # cursors (Some x, t)"

fun advance :: "cursor \<Rightarrow> nat \<Rightarrow> cursor" where
  "advance cu 0 = cu"
| "advance (p, []) (Suc n) = (p, [])"
| "advance (p, x # t) (Suc n) = advance (Some x, t) n"

definition boundary :: "cursor \<Rightarrow> bool" where
  "boundary cu = ((case fst cu of None \<Rightarrow> False | Some a \<Rightarrow> isWordChar a)
                   \<noteq> (case snd cu of [] \<Rightarrow> False | b # _ \<Rightarrow> isWordChar b))"

definition startsWith_ci :: "jsstring \<Rightarrow> string \<Rightarrow> bool" where
  "startsWith_ci s w = (map asciiLower (take (length w) s) = js w)"

text \<open>
  The names of the days, their abbreviations, and the phrases that indicate the whole week,
  the weekdays or the weekend.  A day name stands at a position when the text from there on
  starts with it; an abbreviation stands there as a word when the text from there on starts
  with it and there is a word boundary before it and after it.
\<close>

definition dayNames :: "string list" where
  "dayNames = [''monday'', ''tuesday'', ''wednesday'', ''thursday'', ''friday'', ''saturday'',
     ''sunday'']"

definition dayAbbreviations :: "string list" where
  "dayAbbreviations = [''mon'', ''tue'', ''tues'', ''wed'', ''thu'', ''thurs'', ''fri'', ''sat'',
     ''sun'']"

definition dayKeywords :: "string list" where
  "dayKeywords = [''daily'', ''every day'', ''7 days'', ''weekday'', ''weekend'']"

definition dayNameAt :: "cursor \<Rightarrow> bool" where
  "dayNameAt cu = list_ex (startsWith_ci (snd cu)) dayNames"

definition dayWordAt :: "cursor \<Rightarrow> bool" where
  "dayWordAt cu =
     list_ex (\<lambda>w. startsWith_ci (snd cu) w \<and> boundary cu \<and> boundary (advance cu (length w)))
       dayAbbreviations"

section \<open>Closed forms used in the proofs\<close>

text \<open>
  What the two replacements of \<open>slugify\<close> compute, written without the matcher:
  \<open>collapse\<close> replaces every run of code units outside \<^verbatim>\<open>[a-z0-9]\<close> by one hyphen
  (code unit 0x2D), \<open>stripEdges\<close> removes a hyphen at the start and a hyphen at the end.
  \<open>member\<close> is membership in a character class.  The lemmas below prove that the code
  computes these.
\<close>

definition isAlnum :: "nat \<Rightarrow> bool" where
  "isAlnum x = ((0x61 \<le> x \<and> x \<le> 0x7A) \<or> (0x30 \<le> x \<and> x \<le> 0x39))"

function collapse :: "jsstring \<Rightarrow> jsstring" where
  "collapse [] = []"
| "collapse (x # t) =
     (if isAlnum x then x # collapse t else 0x2D # collapse (dropWhile (\<lambda>y. \<not> isAlnum y) t))"
  by pat_completeness auto
termination
  by (relation "measure length") (auto simp: length_dropWhile_le less_Suc_eq_le)

definition stripTrail :: "jsstring \<Rightarrow> jsstring" where
  "stripTrail s = (if s \<noteq> [] \<and> last s = 0x2D then butlast s else s)"

definition stripEdges :: "jsstring \<Rightarrow> jsstring" where
  "stripEdges s = (case s of [] \<Rightarrow> [] | x # t \<Rightarrow> if x = 0x2D then stripTrail t else stripTrail (x # t))"

definition member :: "bool \<Rightarrow> bool \<Rightarrow> citem list \<Rightarrow> nat \<Rightarrow> bool" where
  "member ic neg items x = (list_ex (inItem ic x) items \<noteq> neg)"

text \<open>
  The ASCII letters and digits, and the characters a slug is made of: lower-case ASCII
  letters, digits and the hyphen.
\<close>

definition asciiAlnum :: "nat \<Rightarrow> bool" where
  "asciiAlnum c = (isAlnum c \<or> (0x41 \<le> c \<and> c \<le> 0x5A))"

definition slugChar :: "nat \<Rightarrow> bool" where
  "slugChar c = (isAlnum c \<or> c = 0x2D)"

text \<open>
  A pattern is plain for a property \<open>P\<close> of code units when it has no capture group and
  consumes only code units with \<open>P\<close>.  When plain frames on top of a stack \<open>k\<close> lead to a
  match, the match comes from \<open>k\<close> at a later position, with the captures unchanged and
  only code units with \<open>P\<close> passed on the way: this is \<open>peeled\<close>.
\<close>

fun plain :: "(nat \<Rightarrow> bool) \<Rightarrow> bool \<Rightarrow> re \<Rightarrow> bool" where
  "plain P ic Eps = True"
| "plain P ic (Lit a) = (\<forall>x. canon ic a = canon ic x \<longrightarrow> P x)"
| "plain P ic (Cls neg items) = (\<forall>x. member ic neg items x \<longrightarrow> P x)"
| "plain P ic (Seq r1 r2) = (plain P ic r1 \<and> plain P ic r2)"
| "plain P ic (Alt r1 r2) = (plain P ic r1 \<and> plain P ic r2)"
| "plain P ic (Opt r) = plain P ic r"
| "plain P ic (Star r) = plain P ic r"
| "plain P ic (LazyStar r) = plain P ic r"
| "plain P ic (Grp n r) = False"
| "plain P ic Bol = True"
| "plain P ic Eol = True"
| "plain P ic WordB = True"

fun plainFrame :: "(nat \<Rightarrow> bool) \<Rightarrow> bool \<Rightarrow> frame \<Rightarrow> bool" where
  "plainFrame P ic (R r) = plain P ic r"
| "plainFrame P ic (Prog n) = True"
| "plainFrame P ic (EndGrp n s) = False"

definition peeled :: "(nat \<Rightarrow> bool) \<Rightarrow> bool \<Rightarrow> frame list \<Rightarrow> cursor \<Rightarrow> caps \<Rightarrow> cursor \<times> caps \<Rightarrow> bool" where
  "peeled P ic k cu c m = (\<exists>u cu'. snd cu = u @ snd cu' \<and> list_all P u \<and> run ic k cu' c = Some m)"


text \<open>
  A literal pattern is made of literals, sequence, alternation and \<^verbatim>\<open>?\<close> only;
  \<open>texts r\<close> lists the strings it stands for, and \<open>matches_ci ic w s\<close> says that \<open>s\<close>
  starts with \<open>w\<close> under the canonicalisation of the matcher.
\<close>

fun literal :: "re \<Rightarrow> bool" where
  "literal Eps = True"
| "literal (Lit a) = True"
| "literal (Seq r1 r2) = (literal r1 \<and> literal r2)"
| "literal (Alt r1 r2) = (literal r1 \<and> literal r2)"
| "literal (Opt r) = literal r"
| "literal r = False"

fun texts :: "re \<Rightarrow> jsstring list" where
  "texts Eps = [[]]"
| "texts (Lit a) = [[a]]"
| "texts (Seq r1 r2) = concat (map (\<lambda>u. map ((@) u) (texts r2)) (texts r1))"
| "texts (Alt r1 r2) = texts r1 @ texts r2"
| "texts (Opt r) = texts r @ [[]]"
| "texts r = []"

definition matches_ci :: "bool \<Rightarrow> jsstring \<Rightarrow> jsstring \<Rightarrow> bool" where
  "matches_ci ic w s = (length w \<le> length s \<and> map (canon ic) (take (length w) s) = map (canon ic) w)"

section \<open>Helper lemmas\<close>

lemma includes_sublist: "includes_str s t = sublist t s"
  by (induction s) (auto simp: sublist_Cons_right)

lemma set_add_distinct: "distinct xs \<Longrightarrow> distinct (set_add xs x)"
  by (simp add: set_add_def)

lemma set_set_add: "set (set_add xs x) = insert x (set xs)"
  by (auto simp: set_add_def)

lemma foldl_set_add_distinct: "distinct acc \<Longrightarrow> distinct (foldl set_add acc xs)"
  by (induction xs arbitrary: acc) (simp_all add: set_add_distinct)

lemma foldl_set_add_set: "set (foldl set_add acc xs) = set acc \<union> set xs"
  by (induction xs arbitrary: acc) (simp_all add: set_set_add)

lemma new_Set_distinct: "distinct (new_Set xs)"
  by (simp add: new_Set_def foldl_set_add_distinct)

lemma new_Set_set: "set (new_Set xs) = set xs"
  by (simp add: new_Set_def foldl_set_add_set)

lemma includes_append: "includes_str (pre @ t @ post) t"
  by (simp add: includes_sublist)






lemmas str_defs = js_def toLowerCase_def lowerUnit_def trim_def isSpace_def

lemmas pat_defs = rangePattern_def dayPattern_def dayName_def dash_def words_def word_def
  Plus_def digit_def space_def ch_def js_def

lemmas eval_defs = extractDays_def matchAt_def execAll.simps addRange_def addDay_def group_def
  normalizeDay_def DAYS_OF_WEEK_def toLowerCase_def lowerUnit_def trim_def isSpace_def canon_def
  isWordChar_def set_add_def rangeLoop.simps Let_def

lemma run_le: "run ic k cu c = Some m \<Longrightarrow> length (snd (fst m)) \<le> length (snd cu)"
  by (induction ic k cu c rule: run.induct) (auto split: if_splits option.splits)

lemma run_lt:
  "run ic k cu c = Some m \<Longrightarrow> list_ex consuming k \<Longrightarrow> length (snd (fst m)) < length (snd cu)"
proof (induction ic k cu c rule: run.induct)
  case (4 ic a k p x t c)
  then show ?case using run_le[of ic k "(Some x, t)" c m] by (auto split: if_splits)
next
  case (6 ic neg items k p x t c)
  then show ?case using run_le[of ic k "(Some x, t)" c m] by (auto split: if_splits)
qed (auto split: if_splits option.splits)

lemma matchAt_lt:
  "matchAt ic r cu = Some m \<Longrightarrow> \<not> nullable r \<Longrightarrow> length (snd (snd (snd m))) < length (snd cu)"
  by (auto simp: matchAt_def split: option.splits dest!: run_lt)

lemma exec_lt:
  "exec ic r cu = Some m \<Longrightarrow> \<not> nullable r \<Longrightarrow> length (snd (snd (snd m))) < length (snd cu)"
proof (induction ic r cu rule: exec.induct)
  case (1 ic r p)
  then show ?case by (auto dest: matchAt_lt)
next
  case (2 ic r p x t)
  then show ?case by (fastforce split: option.splits dest: matchAt_lt)
qed

lemma execAll_total: "\<not> nullable r \<Longrightarrow> \<exists>ms. execAll ic r cu = Some ms"
proof (induction ic r cu rule: execAll.induct)
  case (1 ic r cu)
  show ?case
  proof (cases "exec ic r cu")
    case None
    then show ?thesis by (simp add: execAll.simps)
  next
    case (Some m)
    with 1 have lt: "length (snd (snd (snd m))) < length (snd cu)" by (auto dest: exec_lt)
    from "1.IH"[OF Some lt "1.prems"] obtain ms where "execAll ic r (snd (snd m)) = Some ms" ..
    with Some lt show ?thesis by (subst execAll.simps) simp
  qed
qed

lemma nullable_lits: "nullable (lits w) = (w = [])"
  by (induction w rule: lits.induct) auto

lemma nullable_word [simp]: "nullable (word w) = (w = [])"
  by (simp add: word_def nullable_lits js_def)

lemma nullable_alts: "rs \<noteq> [] \<Longrightarrow> nullable (alts rs) = list_ex nullable rs"
  by (induction rs rule: alts.induct) auto

lemma nullable_words [simp]: "ws \<noteq> [] \<Longrightarrow> nullable (words ws) = list_ex (\<lambda>w. w = []) ws"
  by (simp add: words_def nullable_alts list_ex_iff)

lemma nullable_seqs: "nullable (seqs rs) = list_all nullable rs"
  by (induction rs rule: seqs.induct) auto

lemma nullable_Plus [simp]: "nullable (Plus r) = nullable r"
  by (simp add: Plus_def)

lemma nullable_atoms [simp]: "\<not> nullable digit" "\<not> nullable space" "\<not> nullable dayName" "\<not> nullable price"
  by (simp_all add: digit_def space_def dayName_def price_def nullable_seqs)

lemma patterns_consume:
  "\<not> nullable rangePattern" "\<not> nullable dayPattern"
  "list_all (\<lambda>r. \<not> nullable r) FOOD_PATTERNS" "list_all (\<lambda>r. \<not> nullable r) DRINK_PATTERNS"
  by (simp_all add: rangePattern_def dayPattern_def FOOD_PATTERNS_def DRINK_PATTERNS_def
      nullable_seqs nullable_alts halfOff_def)

lemma dealsLoop_total:
  "list_all (\<lambda>r. \<not> nullable r) patterns \<Longrightarrow> \<exists>ds. dealsLoop patterns text deals = Some ds"
proof (induction patterns arbitrary: deals)
  case Nil
  then show ?case by simp
next
  case (Cons r rs)
  then obtain ms where "execAll True r (None, text) = Some ms"
    using execAll_total[of r True "(None, text)"] by auto
  with Cons show ?case by simp
qed

lemma extractDeals_total:
  "list_all (\<lambda>r. \<not> nullable r) patterns \<Longrightarrow> \<exists>ds. extractDeals text patterns = Some ds"
  using dealsLoop_total[of patterns "text" "[]"] by (auto simp: extractDeals_def)

lemma extractDays_total: "\<exists>ds. extractDays text = Some ds"
proof -
  obtain rs where rs: "execAll True rangePattern (None, text) = Some rs"
    using execAll_total[OF patterns_consume(1)] by blast
  obtain ss where ss: "execAll True dayPattern (None, text) = Some ss"
    using execAll_total[OF patterns_consume(2)] by blast
  show ?thesis by (simp add: extractDays_def Let_def rs ss)
qed

lemma extractHappyHourInfo_total: "\<exists>hh. extractHappyHourInfo rawText = Some hh"
proof -
  obtain ds where ds: "extractDays rawText = Some ds" using extractDays_total by blast
  obtain fs where fs: "extractDeals rawText FOOD_PATTERNS = Some fs"
    using extractDeals_total[OF patterns_consume(3)] by blast
  obtain dr where dr: "extractDeals rawText DRINK_PATTERNS = Some dr"
    using extractDeals_total[OF patterns_consume(4)] by blast
  show ?thesis by (simp add: extractHappyHourInfo_def Let_def ds fs dr)
qed

lemma readRaw_readable: "f \<noteq> Unreadable \<Longrightarrow> \<exists>t. readRaw f = Inr t"
  by (cases f) (simp_all add: readRaw_def)

lemma extractAll_ids:
  assumes "\<forall>v \<in> set venues. raw (v_id v @ js ''.txt'') \<noteq> Unreadable"
  shows "\<exists>results. extractAll raw venues = Some (Inr results) \<and> length results = length venues
      \<and> map r_id results = map v_id venues"
  using assms
proof (induction venues)
  case Nil
  then show ?case by simp
next
  case (Cons v vs)
  then obtain rs where rs: "extractAll raw vs = Some (Inr rs)" "length rs = length vs"
      "map r_id rs = map v_id vs" by auto
  obtain t where t: "readRaw (raw (v_id v @ js ''.txt'')) = Inr t"
    using Cons.prems readRaw_readable by auto
  obtain hh where "extractHappyHourInfo t = Some hh"
    using extractHappyHourInfo_total by blast
  with rs t show ?case by simp
qed

lemma dayset_set_add: "dayset ds \<Longrightarrow> d \<in> set DAYS_OF_WEEK \<Longrightarrow> dayset (set_add ds d)"
  by (auto simp: dayset_def set_add_def)

lemma normalizeDay_member: "normalizeDay s = Some d \<Longrightarrow> d \<in> set DAYS_OF_WEEK"
  by (auto simp: normalizeDay_def Let_def find_Some_iff)

lemma length_DAYS_OF_WEEK: "length DAYS_OF_WEEK = 7"
  by (simp add: DAYS_OF_WEEK_def)

lemma nth_DAYS_OF_WEEK: "0 \<le> i \<Longrightarrow> i < 7 \<Longrightarrow> DAYS_OF_WEEK ! nat i \<in> set DAYS_OF_WEEK"
  by (rule nth_mem) (simp add: length_DAYS_OF_WEEK)

lemma dayset_rangeLoop: "dayset ds \<Longrightarrow> dayset (rangeLoop i endIdx ds)"
proof (induction i endIdx ds rule: rangeLoop.induct)
  case (1 i endIdx days)
  show ?case
  proof (cases "i \<noteq> (endIdx + 1) mod 7 \<and> 0 \<le> i \<and> i < 7")
    case True
    then have "dayset (set_add days (DAYS_OF_WEEK ! nat i))"
      using "1.prems" by (intro dayset_set_add nth_DAYS_OF_WEEK) simp_all
    from "1.IH"[OF True this] show ?thesis using True by (subst rangeLoop.simps) simp
  next
    case False
    then show ?thesis using "1.prems" by (subst rangeLoop.simps) auto
  qed
qed

lemma indexOf_less: "indexOf xs x < int (length xs)"
  by (induction xs) (auto simp: Let_def)

lemma dayset_addRange: "dayset ds \<Longrightarrow> dayset (addRange ds m)"
  using indexOf_less[of DAYS_OF_WEEK]
  by (auto simp: addRange_def Let_def length_DAYS_OF_WEEK split: option.splits
      intro!: dayset_set_add dayset_rangeLoop nth_DAYS_OF_WEEK)

lemma dayset_addDay: "dayset ds \<Longrightarrow> dayset (addDay ds m)"
  by (auto simp: addDay_def split: option.splits intro!: dayset_set_add normalizeDay_member)

lemma dayset_foldl_addRange: "dayset ds \<Longrightarrow> dayset (foldl addRange ds ms)"
  by (induction ms arbitrary: ds) (simp_all add: dayset_addRange)

lemma dayset_foldl_addDay: "dayset ds \<Longrightarrow> dayset (foldl addDay ds ms)"
  by (induction ms arbitrary: ds) (simp_all add: dayset_addDay)

lemma dayset_consts:
  "dayset DAYS_OF_WEEK"
  "dayset (map js [''Monday'', ''Tuesday'', ''Wednesday'', ''Thursday'', ''Friday''])"
  "dayset (set_add (set_add [] (js ''Saturday'')) (js ''Sunday''))"
  "dayset []"
  by (simp_all add: dayset_def DAYS_OF_WEEK_def js_def set_add_def)

lemma DAYS_OF_WEEK_nonempty: "DAYS_OF_WEEK \<noteq> []"
  by (simp add: DAYS_OF_WEEK_def)

lemma extractDays_dayset:
  assumes "extractDays text = Some (Some ds)"
  shows "ds \<noteq> [] \<and> dayset ds"
proof -
  let ?lower = "toLowerCase text"
  let ?days0 = "if includes_str ?lower (js ''weekend'')
                then set_add (set_add [] (js ''Saturday'')) (js ''Sunday'') else []"
  have d0: "dayset ?days0" by (simp add: dayset_consts)
  have fold: "dayset (foldl addDay (foldl addRange ?days0 rs) ss)" for rs ss
    by (intro dayset_foldl_addDay dayset_foldl_addRange d0)
  show ?thesis
    using assms dayset_consts(1,2) DAYS_OF_WEEK_nonempty fold
    by (auto simp: extractDays_def Let_def split: if_splits option.splits)
qed

lemma days_of_info:
  assumes "extractHappyHourInfo rawText = Some hh"
  shows "days hh = unknown \<or> (\<exists>ds. extractDays rawText = Some (Some ds) \<and> days hh = Arr ds)"
  using assms
  by (auto simp: extractHappyHourInfo_def Let_def arrayOrUnknown_def
      split: if_splits option.splits)

lemma days_of_info_found:
  assumes "extractHappyHourInfo rawText = Some hh" "rawText \<noteq> []"
    "\<not> includes_str rawText (js ''No website available'')"
    "\<not> includes_str rawText (js ''Unable to crawl'')"
    "extractDays rawText = Some (Some ds)"
  shows "days hh = Arr ds"
  using assms
  by (auto simp: extractHappyHourInfo_def Let_def arrayOrUnknown_def
      split: if_splits option.splits)

lemma run_star_cls:
  "run ic [R (Star (Cls neg items))] (p, s) c =
     Some ((if takeWhile (member ic neg items) s = [] then p
            else Some (last (takeWhile (member ic neg items) s)),
            dropWhile (member ic neg items) s), c)"
proof (induction s arbitrary: p)
  case Nil
  show ?case by simp
next
  case (Cons x t)
  show ?case
  proof (cases "member ic neg items x")
    case True
    have "run ic [R (Star (Cls neg items))] (p, x # t) c
            = (case run ic [R (Star (Cls neg items))] (Some x, t) c of
                 Some m \<Rightarrow> Some m | None \<Rightarrow> run ic [] (p, x # t) c)"
      using True by (subst run.simps(10)) (simp add: member_def del: run.simps(10))
    then show ?thesis using True by (simp add: Cons.IH del: run.simps(10))
  next
    case False
    then show ?thesis by (simp add: member_def)
  qed
qed

lemma run_plus_cls_Nil: "run ic [R (Plus (Cls neg items))] (p, []) c = None"
  by (simp add: Plus_def)

lemma run_plus_cls_Cons:
  "run ic [R (Plus (Cls neg items))] (p, x # t) c =
     (if member ic neg items x
      then Some ((if takeWhile (member ic neg items) t = [] then Some x
                  else Some (last (takeWhile (member ic neg items) t)),
                  dropWhile (member ic neg items) t), c)
      else None)"
proof -
  have "run ic [R (Plus (Cls neg items))] (p, x # t) c
          = run ic [R (Cls neg items), R (Star (Cls neg items))] (p, x # t) c"
    by (simp only: Plus_def run.simps(7))
  also have "\<dots> = (if member ic neg items x
                     then run ic [R (Star (Cls neg items))] (Some x, t) c else None)"
    by (simp only: run.simps(6) member_def)
  finally show ?thesis by (simp only: run_star_cls)
qed

lemma member_nonAlnum:
  "member False True [Range (ch CHR ''a'') (ch CHR ''z''), Range (ch CHR ''0'') (ch CHR ''9'')]
     = (\<lambda>x. \<not> isAlnum x)"
  by (auto simp: member_def isAlnum_def ch_def fun_eq_iff)

lemma take_run:
  "take (Suc (length t) - length (dropWhile P t)) (x # t) = x # takeWhile P t"
proof -
  have "length (takeWhile P t) + length (dropWhile P t) = length t"
    by (metis length_append takeWhile_dropWhile_id)
  then have "Suc (length t) - length (dropWhile P t) = Suc (length (takeWhile P t))"
    by linarith
  then show ?thesis by (simp add: takeWhile_eq_take[symmetric])
qed

lemma matchAt_run_Nil: "matchAt False nonAlnumRun (p, []) = None"
  by (simp add: matchAt_def nonAlnumRun_def run_plus_cls_Nil del: run.simps)

lemma matchAt_run_Cons:
  "matchAt False nonAlnumRun (p, x # t) =
     (if isAlnum x then None
      else Some (x # takeWhile (\<lambda>y. \<not> isAlnum y) t, (\<lambda>_. None),
                 (if takeWhile (\<lambda>y. \<not> isAlnum y) t = [] then Some x
                  else Some (last (takeWhile (\<lambda>y. \<not> isAlnum y) t)),
                  dropWhile (\<lambda>y. \<not> isAlnum y) t)))"
  by (simp add: matchAt_def nonAlnumRun_def run_plus_cls_Cons member_nonAlnum take_run
      del: run.simps)

lemma replaceAll_run: "replaceAll False nonAlnumRun [Txt (js ''-'')] (p, s) = collapse s"
proof (induction s arbitrary: p rule: collapse.induct)
  case 1
  show ?case by (simp add: matchAt_run_Nil)
next
  case (2 x t)
  show ?case
  proof (cases "isAlnum x")
    case True
    then show ?thesis using "2.IH"(1) by (simp add: matchAt_run_Cons)
  next
    case False
    have le: "length (dropWhile (\<lambda>y. \<not> isAlnum y) t) < Suc (length t)"
      by (simp add: length_dropWhile_le less_Suc_eq_le)
    show ?thesis using False "2.IH"(2) le by (simp add: matchAt_run_Cons js_def)
  qed
qed

lemma matchAt_edge_Nil: "matchAt False edgeHyphen (p, []) = None"
  by (simp add: matchAt_def edgeHyphen_def)

lemma matchAt_edge_start:
  "matchAt False edgeHyphen (None, x # t) =
     (if x = 0x2D then Some ([x], (\<lambda>_. None)(1 := Some [x]), (Some x, t)) else None)"
  by (simp add: matchAt_def edgeHyphen_def canon_def ch_def)

lemma matchAt_edge_inner:
  "matchAt False edgeHyphen (Some q, x # t) =
     (if x = 0x2D \<and> t = [] then Some ([x], (\<lambda>_. None)(1 := Some [x]), (Some x, [])) else None)"
  by (simp add: matchAt_def edgeHyphen_def canon_def ch_def)

lemma replaceAll_edge_inner: "replaceAll False edgeHyphen [] (Some q, s) = stripTrail s"
proof (induction s arbitrary: q)
  case Nil
  show ?case by (simp add: matchAt_edge_Nil stripTrail_def)
next
  case (Cons x t)
  show ?case
  proof (cases "x = 0x2D \<and> t = []")
    case True
    then show ?thesis by (simp add: matchAt_edge_inner matchAt_edge_Nil stripTrail_def)
  next
    case False
    then show ?thesis using Cons.IH[of x]
      by (auto simp: matchAt_edge_inner stripTrail_def)
  qed
qed

lemma replaceAll_edge: "replaceAll False edgeHyphen [] (None, s) = stripEdges s"
proof (cases s)
  case Nil
  then show ?thesis by (simp add: matchAt_edge_Nil stripEdges_def)
next
  case (Cons x t)
  then show ?thesis
    by (auto simp: matchAt_edge_start replaceAll_edge_inner stripEdges_def stripTrail_def)
qed

lemma slugify_closed: "slugify name = stripEdges (collapse (toLowerCase name))"
  by (simp add: slugify_def replaceAll_run replaceAll_edge)


lemma not_isAlnum_hyphen [simp]: "\<not> isAlnum 0x2D"
  by (simp add: isAlnum_def)

lemma collapse_chars: "list_all slugChar (collapse s)"
  by (induction s rule: collapse.induct) (auto simp: slugChar_def)

lemma collapse_head: "s = [] \<or> isAlnum (hd s) \<Longrightarrow> \<not> prefix [0x2D] (collapse s)"
  by (cases s) auto

lemma dropWhile_head: "dropWhile P t = [] \<or> \<not> P (hd (dropWhile P t))"
  using hd_dropWhile[of P t] by blast

lemma collapse_no_double: "\<not> sublist [0x2D, 0x2D] (collapse s)"
proof (induction s rule: collapse.induct)
  case 1
  show ?case by simp
next
  case (2 x t)
  show ?case
  proof (cases "isAlnum x")
    case True
    then show ?thesis using "2.IH"(1) by (auto simp: sublist_Cons_right)
  next
    case False
    have "\<not> prefix [0x2D] (collapse (dropWhile (\<lambda>y. \<not> isAlnum y) t))"
      using dropWhile_head[of "\<lambda>y. \<not> isAlnum y" t] by (intro collapse_head) auto
    then show ?thesis using False "2.IH"(2) by (auto simp: sublist_Cons_right)
  qed
qed

lemma collapse_none: "list_all (\<lambda>c. \<not> isAlnum c) s \<Longrightarrow> collapse s = [] \<or> collapse s = [0x2D]"
proof (cases s)
  case Nil
  then show ?thesis by simp
next
  case (Cons x t)
  assume "list_all (\<lambda>c. \<not> isAlnum c) s"
  with Cons have "\<not> isAlnum x" "dropWhile (\<lambda>y. \<not> isAlnum y) t = []"
    by (auto simp: list_all_iff dropWhile_eq_Nil_conv)
  with Cons show ?thesis by (simp del: dropWhile_eq_Nil_conv)
qed

lemma sublist_butlast: "sublist xs (butlast ys) \<Longrightarrow> sublist xs ys"
  by (metis append_butlast_last_id butlast.simps(1) sublist_append)

lemma stripTrail_props:
  assumes "\<not> sublist [0x2D, 0x2D] s"
  shows "\<not> suffix [0x2D] (stripTrail s)" "\<not> sublist [0x2D, 0x2D] (stripTrail s)"
    "\<not> prefix [0x2D] s \<Longrightarrow> \<not> prefix [0x2D] (stripTrail s)"
    "list_all P s \<Longrightarrow> list_all P (stripTrail s)"
proof -
  show "\<not> suffix [0x2D] (stripTrail s)"
  proof
    assume suf: "suffix [0x2D] (stripTrail s)"
    show False
    proof (cases "s \<noteq> [] \<and> last s = 0x2D")
      case True
      with suf obtain w where "butlast s = w @ [0x2D]" by (auto simp: stripTrail_def suffix_def)
      with True have "s = w @ [0x2D, 0x2D]" by (metis append.assoc append_Cons append_Nil append_butlast_last_id)
      with assms show False by (auto simp: sublist_def)
    next
      case False
      with suf show False by (auto simp: stripTrail_def suffix_def)
    qed
  qed
  show "\<not> sublist [0x2D, 0x2D] (stripTrail s)"
    using assms sublist_butlast by (auto simp: stripTrail_def)
  show "\<not> prefix [0x2D] s \<Longrightarrow> \<not> prefix [0x2D] (stripTrail s)"
    using prefix_order.trans[OF _ prefixeq_butlast, of "[0x2D]" s] by (auto simp: stripTrail_def)
  show "list_all P s \<Longrightarrow> list_all P (stripTrail s)"
    by (auto simp: stripTrail_def list_all_iff dest: in_set_butlastD)
qed

lemma stripEdges_cases:
  "stripEdges s = [] \<and> s = []
   \<or> (\<exists>t. s = 0x2D # t \<and> stripEdges s = stripTrail t)
   \<or> (\<exists>x t. s = x # t \<and> x \<noteq> 0x2D \<and> stripEdges s = stripTrail s)"
  by (cases s) (auto simp: stripEdges_def)

lemma stripEdges_suffix:
  assumes "\<not> sublist [0x2D, 0x2D] s"
  shows "\<not> suffix [0x2D] (stripEdges s)"
proof -
  consider "stripEdges s = []" | t where "s = 0x2D # t" "stripEdges s = stripTrail t"
    | x t where "s = x # t" "x \<noteq> 0x2D" "stripEdges s = stripTrail s"
    using stripEdges_cases[of s] by blast
  then show ?thesis
  proof cases
    case 1
    then show ?thesis by simp
  next
    case 2
    with assms have "\<not> sublist [0x2D, 0x2D] t" by (simp add: sublist_Cons_right)
    with 2 show ?thesis using stripTrail_props(1)[of t] by simp
  next
    case 3
    with assms show ?thesis using stripTrail_props(1)[of s] by simp
  qed
qed

lemma stripEdges_double:
  assumes "\<not> sublist [0x2D, 0x2D] s"
  shows "\<not> sublist [0x2D, 0x2D] (stripEdges s)"
proof -
  consider "stripEdges s = []" | t where "s = 0x2D # t" "stripEdges s = stripTrail t"
    | x t where "s = x # t" "x \<noteq> 0x2D" "stripEdges s = stripTrail s"
    using stripEdges_cases[of s] by blast
  then show ?thesis
  proof cases
    case 1
    then show ?thesis by simp
  next
    case 2
    with assms have "\<not> sublist [0x2D, 0x2D] t" by (simp add: sublist_Cons_right)
    with 2 show ?thesis using stripTrail_props(2)[of t] by simp
  next
    case 3
    with assms show ?thesis using stripTrail_props(2)[of s] by simp
  qed
qed

lemma stripEdges_prefix:
  assumes "\<not> sublist [0x2D, 0x2D] s"
  shows "\<not> prefix [0x2D] (stripEdges s)"
proof -
  consider "stripEdges s = []" | t where "s = 0x2D # t" "stripEdges s = stripTrail t"
    | x t where "s = x # t" "x \<noteq> 0x2D" "stripEdges s = stripTrail s"
    using stripEdges_cases[of s] by blast
  then show ?thesis
  proof cases
    case 1
    then show ?thesis by simp
  next
    case 2
    with assms have "\<not> sublist [0x2D, 0x2D] t" "\<not> prefix [0x2D] t"
      by (auto simp: sublist_Cons_right)
    with 2 show ?thesis using stripTrail_props(3)[of t] by simp
  next
    case 3
    then have "\<not> prefix [0x2D] s" by simp
    with 3 assms show ?thesis using stripTrail_props(3)[of s] by simp
  qed
qed

lemma stripEdges_all:
  assumes "\<not> sublist [0x2D, 0x2D] s" "list_all P s"
  shows "list_all P (stripEdges s)"
proof -
  consider "stripEdges s = []" | t where "s = 0x2D # t" "stripEdges s = stripTrail t"
    | x t where "s = x # t" "x \<noteq> 0x2D" "stripEdges s = stripTrail s"
    using stripEdges_cases[of s] by blast
  then show ?thesis
  proof cases
    case 1
    then show ?thesis by simp
  next
    case 2
    with assms have "\<not> sublist [0x2D, 0x2D] t" "list_all P t"
      by (auto simp: sublist_Cons_right)
    with 2 show ?thesis using stripTrail_props(4)[of t P] by simp
  next
    case 3
    with assms show ?thesis using stripTrail_props(4)[of s P] by simp
  qed
qed

lemma stripEdges_hyphen: "s = [] \<or> s = [0x2D] \<Longrightarrow> stripEdges s = []"
  by (auto simp: stripEdges_def stripTrail_def)

lemma lower_not_alnum:
  "\<not> asciiAlnum c \<Longrightarrow> c \<noteq> 0x130 \<Longrightarrow> c \<noteq> 0x212A \<Longrightarrow> list_all (\<lambda>c. \<not> isAlnum c) (lowerUnit c)"
  by (auto simp: lowerUnit_def asciiAlnum_def isAlnum_def)

lemma toLowerCase_not_alnum:
  "list_all (\<lambda>c. \<not> asciiAlnum c \<and> c \<noteq> 0x130 \<and> c \<noteq> 0x212A) name
     \<Longrightarrow> list_all (\<lambda>c. \<not> isAlnum c) (toLowerCase name)"
  by (induction name) (auto simp: toLowerCase_def dest: lower_not_alnum)

lemma slugify_shape_aux:
  "list_all slugChar (slugify name)"
  "\<not> prefix [0x2D] (slugify name)" "\<not> suffix [0x2D] (slugify name)"
  "\<not> sublist [0x2D, 0x2D] (slugify name)"
  unfolding slugify_closed
  by (intro stripEdges_all stripEdges_prefix stripEdges_suffix stripEdges_double
      collapse_no_double collapse_chars)+

lemmas slug_eval = slugify_closed stripEdges_def stripTrail_def toLowerCase_def lowerUnit_def
  isAlnum_def js_def

lemma dedupe_ids: "set (map v_id (dedupe seen vs)) = v_id ` set vs - seen"
  by (induction vs arbitrary: seen) auto

lemma dedupe_distinct: "distinct (map v_id (dedupe seen vs))"
  by (induction vs arbitrary: seen) (auto simp: dedupe_ids[simplified])

lemma dedupe_subseq: "subseq (dedupe seen vs) vs"
  by (induction vs arbitrary: seen) auto

lemma dedupe_first:
  "v \<in> set (dedupe seen vs) \<Longrightarrow> v_id v \<notin> seen \<and> find (\<lambda>u. v_id u = v_id v) vs = Some v"
proof (induction vs arbitrary: seen)
  case Nil
  then show ?case by simp
next
  case (Cons a vs)
  show ?case
  proof (cases "v_id a \<in> seen")
    case True
    with Cons.prems have "v \<in> set (dedupe seen vs)" by simp
    from Cons.IH[OF this] True show ?thesis by auto
  next
    case False
    show ?thesis
    proof (cases "v = a")
      case True
      with False show ?thesis by simp
    next
      case neq: False
      with False Cons.prems have "v \<in> set (dedupe (insert (v_id a) seen) vs)" by simp
      from Cons.IH[OF this] show ?thesis by auto
    qed
  qed
qed

lemma fallback_ids:
  "map v_id (getFallbackVenues ts) =
     map js [''falling-rock-tap-house'', ''wynkoop-brewing-company'', ''terminal-bar'',
       ''herb-s-hideout'', ''the-cruise-room'', ''retro-room'', ''viewhouse-eatery'',
       ''nallen-s-irish-pub'', ''star-bar-denver'', ''the-1up-lodo'', ''great-divide-brewing'',
       ''jagged-mountain-craft-brewery'', ''linger'', ''lohi-steakbar'', ''avanti-food-beverage'',
       ''little-man-ice-cream'', ''williams-graham'', ''highland-tap-and-burger'',
       ''ale-house-at-amato-s'', ''reiver-s-bar'', ''garibaldi-mexican-bistro'',
       ''el-camino-community-tavern'', ''se-or-bear'', ''the-way-back'']"
  by (simp add: getFallbackVenues_def fallbackVenue_def lodoVenues_def lohiVenues_def slug_eval)

lemma fallback_distinct: "distinct (map v_id (getFallbackVenues ts))"
  unfolding fallback_ids by (simp add: js_def)

lemma dedupe_subset: "set (dedupe seen vs) \<subseteq> set vs"
  by (induction vs arbitrary: seen) auto

lemma dedupe_slugs:
  "\<forall>v \<in> set vs. v_id v = slugify (v_name v) \<Longrightarrow>
     \<forall>v \<in> set (dedupe seen vs). v_id v = slugify (v_name v)"
  using dedupe_subset[of seen vs] by blast

lemma scraper_main_slugs:
  "\<forall>v \<in> set (scraper_main ts scraped). v_id v = slugify (v_name v)"
proof -
  have "\<forall>v \<in> set (getFallbackVenues ts). v_id v = slugify (v_name v)"
    by (auto simp: getFallbackVenues_def fallbackVenue_def)
  moreover have "\<forall>v \<in> set (dedupe {} (map (scrapedVenue ts) cards)). v_id v = slugify (v_name v)"
    for cards
    by (rule dedupe_slugs) (simp add: scrapedVenue_def)
  ultimately show ?thesis by (simp add: scraper_main_def split: option.splits)
qed

lemma peeled_here: "run ic k cu c = Some m \<Longrightarrow> peeled P ic k cu c m"
  unfolding peeled_def by (intro exI[of _ "[]"] exI[of _ cu]) simp

lemma peeled_step: "peeled P ic k (Some x, t) c m \<Longrightarrow> P x \<Longrightarrow> peeled P ic k (p, x # t) c m"
proof -
  assume "peeled P ic k (Some x, t) c m" "P x"
  then obtain u cu' where "t = u @ snd cu'" "list_all P u" "run ic k cu' c = Some m"
    by (auto simp: peeled_def)
  with \<open>P x\<close> have "snd (p, x # t) = (x # u) @ snd cu' \<and> list_all P (x # u) \<and> run ic k cu' c = Some m"
    by simp
  then show ?thesis unfolding peeled_def by blast
qed

lemma run_peel:
  "run ic K cu c = Some m \<Longrightarrow> K = fs @ k \<Longrightarrow> list_all (plainFrame P ic) fs
     \<Longrightarrow> peeled P ic k cu c m"
proof (induction ic K cu c arbitrary: fs rule: run.induct)
  case (1 ic cu c)
  then show ?case by (auto intro: peeled_here)
next
  case (2 ic k' cu c)
  show ?case
  proof (cases fs)
    case Nil
    with 2 show ?thesis by (auto intro: peeled_here)
  next
    case (Cons f fs')
    with 2 show ?thesis by auto
  qed
next
  case (3 ic a k' p c)
  then show ?case by (cases fs) (auto intro: peeled_here)
next
  case (4 ic a k' p x t c)
  show ?case
  proof (cases fs)
    case Nil
    with 4 show ?thesis by (auto intro: peeled_here)
  next
    case (Cons f fs')
    with 4 have "peeled P ic k (Some x, t) c m" "P x"
      by (auto split: if_splits)
    then show ?thesis by (rule peeled_step)
  qed
next
  case (5 ic neg items k' p c)
  then show ?case by (cases fs) (auto intro: peeled_here)
next
  case (6 ic neg items k' p x t c)
  show ?case
  proof (cases fs)
    case Nil
    with 6 show ?thesis by (auto intro: peeled_here)
  next
    case (Cons f fs')
    with 6 have "peeled P ic k (Some x, t) c m" "P x"
      by (auto simp: member_def split: if_splits)
    then show ?thesis by (rule peeled_step)
  qed
next
  case (7 ic r1 r2 k' cu c)
  show ?case
  proof (cases fs)
    case Nil
    with 7 show ?thesis by (auto intro: peeled_here)
  next
    case (Cons f fs')
    with 7 show ?thesis using "7.IH"[of "R r1 # R r2 # fs'"] by auto
  qed
next
  case (8 ic r1 r2 k' cu c)
  show ?case
  proof (cases fs)
    case Nil
    with 8 show ?thesis by (auto intro: peeled_here)
  next
    case (Cons f fs')
    with 8 show ?thesis
      using "8.IH"(1)[of "R r1 # fs'"] "8.IH"(2)[of "R r2 # fs'"]
      by (auto split: option.splits)
  qed
next
  case (9 ic r k' cu c)
  show ?case
  proof (cases fs)
    case Nil
    with 9 show ?thesis by (auto intro: peeled_here)
  next
    case (Cons f fs')
    with 9 show ?thesis
      using "9.IH"(1)[of "R r # Prog (length (snd cu)) # fs'"] "9.IH"(2)[of fs']
      by (auto split: option.splits)
  qed
next
  case (10 ic r k' cu c)
  show ?case
  proof (cases fs)
    case Nil
    with 10 show ?thesis by (auto intro: peeled_here)
  next
    case (Cons f fs')
    with 10 show ?thesis
      using "10.IH"(1)[of "R r # Prog (length (snd cu)) # R (Star r) # fs'"] "10.IH"(2)[of fs']
      by (auto split: option.splits)
  qed
next
  case (11 ic r k' cu c)
  show ?case
  proof (cases fs)
    case Nil
    with 11 show ?thesis by (auto intro: peeled_here)
  next
    case (Cons f fs')
    with 11 show ?thesis
      using "11.IH"(1)[of fs'] "11.IH"(2)[of "R r # Prog (length (snd cu)) # R (LazyStar r) # fs'"]
      by (auto split: option.splits)
  qed
next
  case (12 ic n r k' cu c)
  then show ?case by (cases fs) (auto intro: peeled_here)
next
  case (13 ic k' cu c)
  show ?case
  proof (cases fs)
    case Nil
    with 13 show ?thesis by (auto intro: peeled_here)
  next
    case (Cons f fs')
    with 13 show ?thesis using "13.IH"[of fs'] by (auto split: if_splits)
  qed
next
  case (14 ic k' cu c)
  show ?case
  proof (cases fs)
    case Nil
    with 14 show ?thesis by (auto intro: peeled_here)
  next
    case (Cons f fs')
    with 14 show ?thesis using "14.IH"[of fs'] by (auto split: if_splits)
  qed
next
  case (15 ic k' cu c)
  show ?case
  proof (cases fs)
    case Nil
    with 15 show ?thesis by (auto intro: peeled_here)
  next
    case (Cons f fs')
    with 15 show ?thesis using "15.IH"[of fs'] by (auto split: if_splits)
  qed
next
  case (16 ic n k' cu c)
  show ?case
  proof (cases fs)
    case Nil
    with 16 show ?thesis by (auto intro: peeled_here)
  next
    case (Cons f fs')
    with 16 show ?thesis using "16.IH"[of fs'] by (auto split: if_splits)
  qed
next
  case (17 ic n s0 k' cu c)
  then show ?case by (cases fs) (auto intro: peeled_here)
qed

lemma peel_seq:
  "run ic (R (Seq r rest) # k) cu c = Some m \<Longrightarrow> plain P ic r \<Longrightarrow> peeled P ic (R rest # k) cu c m"
proof -
  assume a: "run ic (R (Seq r rest) # k) cu c = Some m" and p: "plain P ic r"
  from a have "run ic (R r # R rest # k) cu c = Some m" by (simp only: run.simps(7))
  moreover have "R r # R rest # k = [R r] @ R rest # k" by simp
  moreover have "list_all (plainFrame P ic) [R r]" using p by simp
  ultimately show ?thesis by (rule run_peel)
qed

lemma peeled_trans:
  assumes "peeled P ic k1 cu c m"
    and "\<And>cu1. run ic k1 cu1 c = Some m \<Longrightarrow> peeled P ic k2 cu1 c m"
  shows "peeled P ic k2 cu c m"
proof -
  from assms(1) obtain u cu1 where 1: "snd cu = u @ snd cu1" "list_all P u" "run ic k1 cu1 c = Some m"
    by (auto simp: peeled_def)
  from assms(2)[OF 1(3)] obtain u' cu2 where 2: "snd cu1 = u' @ snd cu2" "list_all P u'"
      "run ic k2 cu2 c = Some m"
    by (auto simp: peeled_def)
  from 1 2 have "snd cu = (u @ u') @ snd cu2 \<and> list_all P (u @ u') \<and> run ic k2 cu2 c = Some m"
    by simp
  then show ?thesis unfolding peeled_def by blast
qed






















lemma cursors_self: "cu \<in> set (cursors cu)"
  by (cases cu; cases "snd cu") auto

lemma cursors_trans:
  "cu1 \<in> set (cursors cu) \<Longrightarrow> cu2 \<in> set (cursors cu1) \<Longrightarrow> cu2 \<in> set (cursors cu)"
  by (induction cu rule: cursors.induct) auto

lemma cursors_append: "\<exists>q. (q, s) \<in> set (cursors (p, u @ s))"
proof (induction u arbitrary: p)
  case Nil
  show ?case using cursors_self[of "(p, s)"] by auto
next
  case (Cons x u)
  from Cons[of "Some x"] show ?case by auto
qed

lemma cursors_length: "cu' \<in> set (cursors cu) \<Longrightarrow> length (snd cu') \<le> length (snd cu)"
  by (induction cu rule: cursors.induct) auto

lemma cursors_suffix: "cu' \<in> set (cursors cu) \<Longrightarrow> suffix (snd cu') (snd cu)"
  by (induction cu rule: cursors.induct) (auto simp: suffix_Cons)

lemma snd_advance: "snd (advance cu n) = drop n (snd cu)"
  by (induction cu n rule: advance.induct) auto

lemma advance_add: "advance (advance cu a) b = advance cu (a + b)"
  by (induction cu a rule: advance.induct) (auto, (cases b; simp)+)

lemma advance_cursors: "advance cu n \<in> set (cursors cu)"
  by (induction cu n rule: advance.induct) (auto simp: cursors_self)

lemma run_cursor: "run ic k cu c = Some m \<Longrightarrow> fst m \<in> set (cursors cu)"
  by (induction ic k cu c rule: run.induct) (auto simp: cursors_self split: if_splits option.splits)

lemma matchAt_cursor: "matchAt ic r cu = Some mt \<Longrightarrow> snd (snd mt) \<in> set (cursors cu)"
  by (auto simp: matchAt_def split: option.splits dest: run_cursor)

lemma exec_cursor:
  "exec ic r cu = Some mt \<Longrightarrow> \<exists>cu' \<in> set (cursors cu). matchAt ic r cu' = Some mt"
  by (induction ic r cu rule: exec.induct) (auto split: option.splits)

lemma exec_found:
  "cu' \<in> set (cursors cu) \<Longrightarrow> matchAt ic r cu' = Some mt \<Longrightarrow> exec ic r cu \<noteq> None"
  by (induction ic r cu rule: exec.induct) (auto split: option.splits)

lemma execAll_cursor:
  "execAll ic r cu = Some ms \<Longrightarrow> m \<in> set ms
     \<Longrightarrow> \<exists>cu' \<in> set (cursors cu). \<exists>mt. matchAt ic r cu' = Some mt \<and> m = (fst mt, fst (snd mt))"
proof (induction ic r cu arbitrary: ms rule: execAll.induct)
  case (1 ic r cu)
  show ?case
  proof (cases "exec ic r cu")
    case None
    with "1.prems" show ?thesis by (simp add: execAll.simps)
  next
    case (Some mt0)
    from exec_cursor[OF Some] obtain cu0 where cu0: "cu0 \<in> set (cursors cu)"
      "matchAt ic r cu0 = Some mt0" by blast
    from "1.prems"(1) Some have lt: "length (snd (snd (snd mt0))) < length (snd cu)"
      by (subst (asm) execAll.simps) (auto split: if_splits)
    with "1.prems"(1) Some obtain ms' where ms': "execAll ic r (snd (snd mt0)) = Some ms'"
      "ms = (fst mt0, fst (snd mt0)) # ms'"
      by (subst (asm) execAll.simps) auto
    show ?thesis
    proof (cases "m = (fst mt0, fst (snd mt0))")
      case True
      with cu0 show ?thesis by blast
    next
      case False
      with "1.prems"(2) ms' have "m \<in> set ms'" by simp
      from "1.IH"[OF Some lt ms'(1) this] obtain cu' mt where
        a: "cu' \<in> set (cursors (snd (snd mt0)))" "matchAt ic r cu' = Some mt" "m = (fst mt, fst (snd mt))"
        by blast
      have "snd (snd mt0) \<in> set (cursors cu)"
        using matchAt_cursor[OF cu0(2)] cu0(1) by (rule cursors_trans[rotated])
      with a(1) have "cu' \<in> set (cursors cu)" by (rule cursors_trans[rotated])
      with a show ?thesis by blast
    qed
  qed
qed

lemma execAll_nonempty:
  "exec ic r cu \<noteq> None \<Longrightarrow> execAll ic r cu = Some ms \<Longrightarrow> ms \<noteq> []"
  by (subst (asm) execAll.simps) (auto split: option.splits if_splits)

lemma matches_ci_append:
  "matches_ci ic u s \<Longrightarrow> matches_ci ic v (drop (length u) s) \<Longrightarrow> matches_ci ic (u @ v) s"
proof -
  assume a: "matches_ci ic u s" "matches_ci ic v (drop (length u) s)"
  have "take (length u + length v) s = take (length u) s @ take (length v) (drop (length u) s)"
    by (simp add: take_add)
  with a show ?thesis by (auto simp: matches_ci_def)
qed

lemma run_texts:
  "literal r \<Longrightarrow> run ic (R r # k) cu c = Some m
     \<Longrightarrow> \<exists>w \<in> set (texts r). matches_ci ic w (snd cu) \<and> run ic k (advance cu (length w)) c = Some m"
proof (induction r arbitrary: k cu c)
  case Eps
  then show ?case by (simp add: matches_ci_def)
next
  case (Lit a)
  obtain p s where cu: "cu = (p, s)" by (cases cu)
  with Lit show ?case by (cases s) (auto simp: matches_ci_def split: if_splits)
next
  case (Seq r1 r2)
  from Seq.prems have l: "literal r1" "literal r2" and
    r: "run ic (R r1 # R r2 # k) cu c = Some m" by simp_all
  from Seq.IH(1)[OF l(1) r] obtain u where
    u: "u \<in> set (texts r1)" "matches_ci ic u (snd cu)"
       "run ic (R r2 # k) (advance cu (length u)) c = Some m" by blast
  from Seq.IH(2)[OF l(2) u(3)] obtain v where
    v: "v \<in> set (texts r2)" "matches_ci ic v (snd (advance cu (length u)))"
       "run ic k (advance (advance cu (length u)) (length v)) c = Some m" by blast
  have "u @ v \<in> set (texts (Seq r1 r2))" using u(1) v(1) by auto
  moreover have "matches_ci ic (u @ v) (snd cu)"
    using u(2) v(2) by (auto simp: snd_advance intro: matches_ci_append)
  moreover have "run ic k (advance cu (length (u @ v))) c = Some m"
    using v(3) by (simp add: advance_add)
  ultimately show ?case by blast
next
  case (Alt r1 r2)
  from Alt.prems have l: "literal r1" "literal r2" by simp_all
  from Alt.prems(2) consider "run ic (R r1 # k) cu c = Some m" | "run ic (R r2 # k) cu c = Some m"
    by (auto split: option.splits)
  then show ?case
  proof cases
    case 1
    from Alt.IH(1)[OF l(1) 1] show ?thesis by auto
  next
    case 2
    from Alt.IH(2)[OF l(2) 2] show ?thesis by auto
  qed
next
  case (Opt r)
  from Opt.prems have l: "literal r" by simp
  from Opt.prems(2) consider "run ic (R r # Prog (length (snd cu)) # k) cu c = Some m"
    | "run ic k cu c = Some m"
    by (auto split: option.splits)
  then show ?case
  proof cases
    case 1
    from Opt.IH[OF l 1] obtain w where
      w: "w \<in> set (texts r)" "matches_ci ic w (snd cu)"
         "run ic (Prog (length (snd cu)) # k) (advance cu (length w)) c = Some m" by blast
    from w(3) have "run ic k (advance cu (length w)) c = Some m"
      by (simp split: if_splits)
    with w show ?thesis by auto
  next
    case 2
    then show ?thesis by (auto simp: matches_ci_def)
  qed
qed simp_all


lemma canon_lower:
  "0x61 \<le> a \<Longrightarrow> a \<le> 0x7A \<Longrightarrow> (canon True x = canon True a) = (asciiLower x = a)"
  by (auto simp: canon_def asciiLower_def)

lemma matches_ci_lower:
  "list_all (\<lambda>a. 0x61 \<le> a \<and> a \<le> 0x7A) w
     \<Longrightarrow> matches_ci True w s = (map asciiLower (take (length w) s) = w)"
proof (induction w arbitrary: s)
  case Nil
  then show ?case by (simp add: matches_ci_def)
next
  case (Cons a w)
  show ?case
  proof (cases s)
    case Nil
    then show ?thesis by (simp add: matches_ci_def)
  next
    case (Cons x t)
    have "matches_ci True (a # w) (x # t) = (canon True x = canon True a \<and> matches_ci True w t)"
      by (auto simp: matches_ci_def)
    also have "\<dots> = (asciiLower x = a \<and> map asciiLower (take (length w) t) = w)"
      using Cons.prems Cons.IH[of t] by (simp add: canon_lower)
    finally show ?thesis using Cons by auto
  qed
qed

lemma matches_startsWith:
  "list_all (\<lambda>a. 0x61 \<le> a \<and> a \<le> 0x7A) (js w) \<Longrightarrow> matches_ci True (js w) s = startsWith_ci s w"
  by (simp add: matches_ci_lower startsWith_ci_def) (simp add: js_def)

lemma day_forms_lower:
  "\<forall>w \<in> set (dayNames @ dayAbbreviations). list_all (\<lambda>a. 0x61 \<le> a \<and> a \<le> 0x7A) (js w)"
  by (simp add: dayNames_def dayAbbreviations_def js_def)

lemma dayPattern_match:
  assumes "matchAt True dayPattern cu = Some mt"
  shows "\<exists>w \<in> set (dayNames @ dayAbbreviations).
           startsWith_ci (snd cu) w \<and> boundary cu \<and> boundary (advance cu (length w))
           \<and> fst (snd mt) 1 = Some (take (length w) (snd cu))"
proof -
  define A where "A = alts
     [Seq (word ''mon'') (Opt (word ''day'')),
      Seq (word ''tue'') (Opt (Seq (word ''s'') (Opt (word ''day'')))),
      Seq (word ''wed'') (Opt (word ''nesday'')),
      Seq (word ''thu'') (Opt (Seq (word ''rs'') (Opt (word ''day'')))),
      Seq (word ''fri'') (Opt (word ''day'')),
      Seq (word ''sat'') (Opt (word ''urday'')),
      Seq (word ''sun'') (Opt (word ''day''))]"
  have dp: "dayPattern = Seq WordB (Seq (Grp 1 A) WordB)"
    by (simp add: dayPattern_def A_def)
  have lit: "literal A"
    by (simp add: A_def word_def js_def)
  have tx: "texts A = map js [''monday'', ''mon'', ''tuesday'', ''tues'', ''tue'', ''wednesday'',
      ''wed'', ''thursday'', ''thurs'', ''thu'', ''friday'', ''fri'', ''saturday'', ''sat'',
      ''sunday'', ''sun'']"
    by (simp add: A_def word_def js_def)
  from assms obtain m where m: "run True [R dayPattern] cu (\<lambda>_. None) = Some m"
      "fst (snd mt) = snd m"
    by (auto simp: matchAt_def split: option.splits)
  from m(1) have b: "boundary cu"
    and r: "run True [R A, EndGrp 1 (snd cu), R WordB] cu (\<lambda>_. None) = Some m"
    unfolding dp by (auto simp: boundary_def split: if_splits)
  from run_texts[OF lit r] obtain w where w: "w \<in> set (texts A)" "matches_ci True w (snd cu)"
      "run True [EndGrp 1 (snd cu), R WordB] (advance cu (length w)) (\<lambda>_. None) = Some m"
    by blast
  from w(2) have len: "length w \<le> length (snd cu)" by (simp add: matches_ci_def)
  from w(3) have b2: "boundary (advance cu (length w))"
    and g: "snd m 1 = Some (take (length w) (snd cu))"
    using len by (auto simp: boundary_def snd_advance split: if_splits)
  have sub: "set [''monday'', ''mon'', ''tuesday'', ''tues'', ''tue'', ''wednesday'',
      ''wed'', ''thursday'', ''thurs'', ''thu'', ''friday'', ''fri'', ''saturday'', ''sat'',
      ''sunday'', ''sun''] \<subseteq> set (dayNames @ dayAbbreviations)"
    by (simp add: dayNames_def dayAbbreviations_def)
  from w(1) have "w \<in> js ` set [''monday'', ''mon'', ''tuesday'', ''tues'', ''tue'', ''wednesday'',
      ''wed'', ''thursday'', ''thurs'', ''thu'', ''friday'', ''fri'', ''saturday'', ''sat'',
      ''sunday'', ''sun'']"
    unfolding tx by (simp only: set_map)
  with sub obtain w' where w': "w = js w'" "w' \<in> set (dayNames @ dayAbbreviations)"
    by blast
  have lw: "length w = length w'" using w'(1) by (simp add: js_def)
  have "startsWith_ci (snd cu) w'"
    using w(2) w' day_forms_lower by (simp add: matches_startsWith)
  with b b2 g m(2) w'(2) lw show ?thesis by auto
qed


lemma seqs_Cons: "rs \<noteq> [] \<Longrightarrow> seqs (r # rs) = Seq r (seqs rs)"
  by (cases rs) simp_all

lemma peel_seqs:
  "list_all (plain P ic) rs \<Longrightarrow> run ic (R (seqs (rs @ [r])) # k) cu c = Some m
     \<Longrightarrow> peeled P ic (R r # k) cu c m"
proof (induction rs arbitrary: cu)
  case Nil
  then show ?case by (auto intro: peeled_here)
next
  case (Cons a rs)
  from Cons.prems(2) have "run ic (R (Seq a (seqs (rs @ [r]))) # k) cu c = Some m"
    by (simp add: seqs_Cons del: run.simps)
  then have "peeled P ic (R (seqs (rs @ [r])) # k) cu c m"
    by (rule peel_seq) (use Cons.prems(1) in simp)
  then show ?case
    by (rule peeled_trans) (rule Cons.IH, use Cons.prems(1) in simp)
qed

lemma texts_dayName: "literal dayName" "texts dayName = map js dayNames"
  by (simp_all add: dayName_def dayNames_def words_def word_def js_def)

lemma dayName_at:
  assumes "run True (R dayName # k) cu c = Some m"
  shows "dayNameAt cu \<and> 6 \<le> length (snd cu)
         \<and> (\<exists>n \<ge> 6. run True k (advance cu n) c = Some m)"
proof -
  from run_texts[OF texts_dayName(1) assms] obtain w where w: "w \<in> set (texts dayName)"
      "matches_ci True w (snd cu)" "run True k (advance cu (length w)) c = Some m"
    by blast
  from w(1) obtain w' where w': "w = js w'" "w' \<in> set dayNames"
    unfolding texts_dayName(2) by auto
  then have "w' \<in> set (dayNames @ dayAbbreviations)" by simp
  with w(2) w'(1) have "startsWith_ci (snd cu) w'"
    using day_forms_lower by (simp add: matches_startsWith)
  with w'(2) have "dayNameAt cu" by (auto simp: dayNameAt_def list_ex_iff)
  moreover have "6 \<le> length w" using w' by (auto simp: dayNames_def js_def)
  moreover have "length w \<le> length (snd cu)" using w(2) by (simp add: matches_ci_def)
  ultimately show ?thesis using w(3) by auto
qed

lemma rangePattern_match:
  assumes "run True [R rangePattern] cu c = Some m"
  shows "dayNameAt cu
         \<and> (\<exists>cu2 \<in> set (cursors cu). dayNameAt cu2 \<and> length (snd cu2) + 6 \<le> length (snd cu))"
proof -
  let ?seps = "[Star space, Opt dash, Star space, Opt (words [''through'', ''thru'', ''to'']),
     Star space, Opt dash, Star space]"
  have rp: "rangePattern = Seq (Grp 1 dayName) (seqs (?seps @ [Grp 2 dayName]))"
    by (simp add: rangePattern_def)
  have pl: "list_all (plain (\<lambda>_. True) True) ?seps"
    by (simp add: space_def dash_def words_def word_def js_def)
  from assms have "run True [R dayName, EndGrp 1 (snd cu), R (seqs (?seps @ [Grp 2 dayName]))] cu c
      = Some m"
    unfolding rp by (simp only: run.simps(7,12))
  from dayName_at[OF this] obtain n where n: "dayNameAt cu" "6 \<le> length (snd cu)" "6 \<le> n"
      "run True [EndGrp 1 (snd cu), R (seqs (?seps @ [Grp 2 dayName]))] (advance cu n) c = Some m"
    by blast
  from n(4) have "\<exists>c1. run True [R (seqs (?seps @ [Grp 2 dayName]))] (advance cu n) c1 = Some m"
    by (simp only: run.simps(17)) (rule exI)
  then obtain c1 where "run True [R (seqs (?seps @ [Grp 2 dayName]))] (advance cu n) c1 = Some m" ..
  from peel_seqs[OF pl this] obtain u cu2 where u: "snd (advance cu n) = u @ snd cu2"
      "run True [R (Grp 2 dayName)] cu2 c1 = Some m"
    by (auto simp: peeled_def)
  from u(2) have "run True [R dayName, EndGrp 2 (snd cu2)] cu2 c1 = Some m"
    by (simp only: run.simps(12))
  from dayName_at[OF this] have d2: "dayNameAt cu2" by blast
  have sp: "snd cu = take n (snd cu) @ u @ snd cu2"
    using u(1) append_take_drop_id[of n "snd cu"] by (simp add: snd_advance)
  obtain q where "(q, snd cu2) \<in> set (cursors (fst cu, (take n (snd cu) @ u) @ snd cu2))"
    using cursors_append[of "snd cu2" "fst cu" "take n (snd cu) @ u"] by blast
  then have q: "(q, snd cu2) \<in> set (cursors cu)" using sp by simp
  have "dayNameAt (q, snd cu2)" using d2 by (simp add: dayNameAt_def)
  moreover have "length (snd cu2) + 6 \<le> length (snd cu)"
  proof -
    have "length (snd cu2) \<le> length (snd (advance cu n))" using u(1) by simp
    also have "\<dots> = length (snd cu) - n" by (simp add: snd_advance)
    finally show ?thesis using n(2,3) by linarith
  qed
  ultimately show ?thesis using n(1) q by force
qed

lemma range_at_phrase:
  "\<exists>mt. matchAt True rangePattern (p, js ''Monday-Friday'' @ post) = Some mt
      \<and> fst (snd mt) = (\<lambda>_. None)(1 := Some (js ''Monday''), 2 := Some (js ''Friday''))"
  by (simp add: matchAt_def pat_defs canon_def isSpace_def)


lemma addRange_phrase:
  assumes "snd m = (\<lambda>_. None)(1 := Some (js ''Monday''), 2 := Some (js ''Friday''))"
    and "ds = [] \<or> ds = map js [''Monday'', ''Tuesday'', ''Wednesday'', ''Thursday'', ''Friday'']"
  shows "addRange ds m = map js [''Monday'', ''Tuesday'', ''Wednesday'', ''Thursday'', ''Friday'']"
  using assms
  by (auto simp: addRange_def group_def normalizeDay_def DAYS_OF_WEEK_def toLowerCase_def
      lowerUnit_def trim_def isSpace_def set_add_def rangeLoop.simps Let_def js_def)

lemma addDay_phrase:
  assumes "snd m 1 = Some (js ''Monday'') \<or> snd m 1 = Some (js ''Friday'')"
  shows "addDay (map js [''Monday'', ''Tuesday'', ''Wednesday'', ''Thursday'', ''Friday'']) m
           = map js [''Monday'', ''Tuesday'', ''Wednesday'', ''Thursday'', ''Friday'']"
  using assms
  by (auto simp: addDay_def group_def normalizeDay_def DAYS_OF_WEEK_def toLowerCase_def
      lowerUnit_def trim_def isSpace_def set_add_def Let_def js_def)

lemma foldl_addRange_phrase:
  assumes "\<forall>m \<in> set rs. snd m = (\<lambda>_. None)(1 := Some (js ''Monday''), 2 := Some (js ''Friday''))"
    and "rs \<noteq> [] \<or> ds = map js [''Monday'', ''Tuesday'', ''Wednesday'', ''Thursday'', ''Friday'']"
    and "ds = [] \<or> ds = map js [''Monday'', ''Tuesday'', ''Wednesday'', ''Thursday'', ''Friday'']"
  shows "foldl addRange ds rs = map js [''Monday'', ''Tuesday'', ''Wednesday'', ''Thursday'', ''Friday'']"
  using assms
proof (induction rs arbitrary: ds)
  case Nil
  then show ?case by simp
next
  case (Cons m rs)
  have sm: "snd m = (\<lambda>_. None)(1 := Some (js ''Monday''), 2 := Some (js ''Friday''))"
    using Cons.prems(1) by (meson list.set_intros(1))
  have rest: "\<forall>m \<in> set rs. snd m = (\<lambda>_. None)(1 := Some (js ''Monday''), 2 := Some (js ''Friday''))"
    using Cons.prems(1) by (meson list.set_intros(2))
  have step: "addRange ds m = map js [''Monday'', ''Tuesday'', ''Wednesday'', ''Thursday'', ''Friday'']"
    by (rule addRange_phrase[OF sm Cons.prems(3)])
  have "foldl addRange (addRange ds m) rs
          = map js [''Monday'', ''Tuesday'', ''Wednesday'', ''Thursday'', ''Friday'']"
    by (rule Cons.IH[OF rest]) (simp_all only: step simp_thms)
  then show ?case by (simp only: foldl_Cons)
qed

lemma foldl_addDay_phrase:
  assumes "\<forall>m \<in> set ss. snd m 1 = Some (js ''Monday'') \<or> snd m 1 = Some (js ''Friday'')"
  shows "foldl addDay (map js [''Monday'', ''Tuesday'', ''Wednesday'', ''Thursday'', ''Friday'']) ss
           = map js [''Monday'', ''Tuesday'', ''Wednesday'', ''Thursday'', ''Friday'']"
  using assms
proof (induction ss)
  case Nil
  then show ?case by simp
next
  case (Cons m ss)
  then show ?case using addDay_phrase[of m] by simp
qed

lemma names_at_phrase:
  assumes "w \<in> set dayNames"
  shows "startsWith_ci (js ''Monday-Friday'' @ post) w \<Longrightarrow> w = ''monday''"
    and "startsWith_ci (js ''Friday'' @ post) w \<Longrightarrow> w = ''friday''"
  using assms by (auto simp: dayNames_def startsWith_ci_def js_def asciiLower_def)

lemma single_at_phrase:
  assumes "matchAt True dayPattern cu = Some mt"
    and "\<not> dayWordAt cu"
    and "dayNameAt cu \<longrightarrow> snd cu = js ''Monday-Friday'' @ post \<or> snd cu = js ''Friday'' @ post"
  shows "fst (snd mt) 1 = Some (js ''Monday'') \<or> fst (snd mt) 1 = Some (js ''Friday'')"
proof -
  from dayPattern_match[OF assms(1)] obtain w where w: "w \<in> set (dayNames @ dayAbbreviations)"
      "startsWith_ci (snd cu) w" "boundary cu" "boundary (advance cu (length w))"
      "fst (snd mt) 1 = Some (take (length w) (snd cu))"
    by blast
  have "w \<notin> set dayAbbreviations"
    using w(2,3,4) assms(2) by (auto simp: dayWordAt_def list_ex_iff)
  with w(1) have n: "w \<in> set dayNames" by simp
  with w(2) have "dayNameAt cu" by (auto simp: dayNameAt_def list_ex_iff)
  with assms(3) consider "snd cu = js ''Monday-Friday'' @ post" | "snd cu = js ''Friday'' @ post"
    by blast
  then show ?thesis
  proof cases
    case 1
    with w(2) n have "w = ''monday''" by (auto dest: names_at_phrase(1))
    with 1 w(5) show ?thesis by (simp add: js_def)
  next
    case 2
    with w(2) n have "w = ''friday''" by (auto dest: names_at_phrase(2))
    with 2 w(5) show ?thesis by (simp add: js_def)
  qed
qed

lemma range_at:
  assumes "matchAt True rangePattern cu = Some mt"
    and "cu \<in> set (cursors (None, raw))"
    and "\<forall>cu \<in> set (cursors (None, raw)). dayNameAt cu
           \<longrightarrow> snd cu = js ''Monday-Friday'' @ post \<or> snd cu = js ''Friday'' @ post"
  shows "fst (snd mt) = (\<lambda>_. None)(1 := Some (js ''Monday''), 2 := Some (js ''Friday''))"
proof -
  from assms(1) obtain m where m: "run True [R rangePattern] cu (\<lambda>_. None) = Some m"
    by (auto simp: matchAt_def split: option.splits)
  from rangePattern_match[OF m] obtain cu2 where a: "dayNameAt cu" "cu2 \<in> set (cursors cu)"
      "dayNameAt cu2" "length (snd cu2) + 6 \<le> length (snd cu)"
    by blast
  from a(2) assms(2) have "cu2 \<in> set (cursors (None, raw))" by (rule cursors_trans[rotated])
  with assms(3) a(3) have l2: "length (snd cu2) \<ge> length post + 6" by (auto simp: js_def)
  from assms(2,3) a(1) consider "snd cu = js ''Monday-Friday'' @ post" | "snd cu = js ''Friday'' @ post"
    by blast
  then show ?thesis
  proof cases
    case 1
    then have "cu = (fst cu, js ''Monday-Friday'' @ post)" by (cases cu) simp
    with range_at_phrase[of "fst cu" post] assms(1) show ?thesis by auto
  next
    case 2
    with a(4) l2 show ?thesis by (simp add: js_def)
  qed
qed


section \<open>Claims\<close>

text \<open>
  C6.  Whatever the anchors of the homepage and whatever the base URL, the links that
  \<open>findRelevantLinks\<close> returns are at most five, are pairwise different, and each of them
  parses to a hostname that is the hostname of the base URL or ends with a dot followed by
  that hostname (a subdomain).
\<close>

theorem findRelevantLinks_capped_distinct_same_site:
  "length (findRelevantLinks hostname page baseUrl) \<le> 5
   \<and> distinct (findRelevantLinks hostname page baseUrl)
   \<and> (\<forall>l \<in> set (findRelevantLinks hostname page baseUrl).
        \<exists>base u. hostname baseUrl = Some base \<and> hostname l = Some u
          \<and> (u = base \<or> endsWith u (js ''.'' @ base)))"
proof -
  let ?r = "findRelevantLinks hostname page baseUrl"
  have len: "length ?r \<le> 5"
    by (simp add: findRelevantLinks_def MAX_PAGES_PER_VENUE_def Let_def
        split: option.splits)
  have dist: "distinct ?r"
    by (simp add: findRelevantLinks_def Let_def new_Set_distinct distinct_take
        split: option.splits)
  have site: "\<exists>base u. hostname baseUrl = Some base \<and> hostname l = Some u
          \<and> (u = base \<or> endsWith u (js ''.'' @ base))" if "l \<in> set ?r" for l
  proof (cases page)
    case None
    with that show ?thesis by (simp add: findRelevantLinks_def)
  next
    case (Some anchors)
    show ?thesis
    proof (cases "hostname baseUrl")
      case None
      with Some that show ?thesis by (simp add: findRelevantLinks_def Let_def)
    next
      case (Some base)
      with \<open>page = Some anchors\<close> that
      have "l \<in> set (filter (\<lambda>h. case hostname h of None \<Rightarrow> False
                 | Some u \<Rightarrow> u = base \<or> endsWith u (js ''.'' @ base))
               (new_Set (map fst (filter (\<lambda>link. relevant (toLowerCase (fst link), snd link))
                         (map (\<lambda>a. (href a, toLowerCase (trim (textContent a)))) anchors)))))"
        by (auto simp: findRelevantLinks_def Let_def dest: in_set_takeD)
      then show ?thesis using Some by (auto split: option.splits)
    qed
  qed
  from len dist site show ?thesis by blast
qed

theorem findRelevantLinks_capped_distinct_same_site_witness:
  "findRelevantLinks
     (map_of [(js ''http://a.co/'', js ''a.co''), (js ''http://a.co/menu'', js ''a.co''),
              (js ''http://m.a.co/food'', js ''m.a.co''), (js ''http://b.co/menu'', js ''b.co''),
              (js ''http://a.co/about'', js ''a.co'')])
     (Some [\<lparr>href = js ''http://a.co/menu'', textContent = js '' Menu ''\<rparr>,
            \<lparr>href = js ''http://b.co/menu'', textContent = js ''Partner''\<rparr>,
            \<lparr>href = js ''http://a.co/about'', textContent = js ''About''\<rparr>,
            \<lparr>href = js ''http://m.a.co/food'', textContent = js ''Eat''\<rparr>,
            \<lparr>href = js ''http://a.co/menu'', textContent = js ''Happy Hour''\<rparr>])
     (js ''http://a.co/'')
   = [js ''http://a.co/menu'', js ''http://m.a.co/food'']"
  using findRelevantLinks_capped_distinct_same_site
    [of "map_of [(js ''http://a.co/'', js ''a.co''), (js ''http://a.co/menu'', js ''a.co''),
              (js ''http://m.a.co/food'', js ''m.a.co''), (js ''http://b.co/menu'', js ''b.co''),
              (js ''http://a.co/about'', js ''a.co'')]"
        "Some [\<lparr>href = js ''http://a.co/menu'', textContent = js '' Menu ''\<rparr>,
            \<lparr>href = js ''http://b.co/menu'', textContent = js ''Partner''\<rparr>,
            \<lparr>href = js ''http://a.co/about'', textContent = js ''About''\<rparr>,
            \<lparr>href = js ''http://m.a.co/food'', textContent = js ''Eat''\<rparr>,
            \<lparr>href = js ''http://a.co/menu'', textContent = js ''Happy Hour''\<rparr>]"
        "js ''http://a.co/''"]
  by (simp add: findRelevantLinks_def relevant_def INTERESTING_KEYWORDS_def MAX_PAGES_PER_VENUE_def
      js_def toLowerCase_def lowerUnit_def trim_def isSpace_def new_Set_def set_add_def
      endsWith_def suffix_def Let_def)



text \<open>
  C2.  For a raw text that is empty, or contains "No website available", or contains
  "Unable to crawl", \<open>extractHappyHourInfo\<close> returns the record whose five fields are the
  string "unknown"; this is the first branch of the function, taken before any pattern is
  applied.
\<close>

theorem sentinel_all_unknown:
  assumes "rawText = [] \<or> includes_str rawText (js ''No website available'')
             \<or> includes_str rawText (js ''Unable to crawl'')"
  shows "extractHappyHourInfo rawText =
           Some \<lparr>days = Str (js ''unknown''), start_time = Str (js ''unknown''),
                  end_time = Str (js ''unknown''), food_deals = Str (js ''unknown''),
                  drink_deals = Str (js ''unknown'')\<rparr>"
  using assms by (simp add: extractHappyHourInfo_def unknown_def)

theorem sentinel_all_unknown_witness:
  "extractHappyHourInfo (js ''Venue: Test Bar'' @ [0xA] @ js ''No website available for crawling.'' @ [0xA])
     = Some \<lparr>days = Str (js ''unknown''), start_time = Str (js ''unknown''),
                  end_time = Str (js ''unknown''), food_deals = Str (js ''unknown''),
                  drink_deals = Str (js ''unknown'')\<rparr>
   \<and> extractHappyHourInfo [] = Some \<lparr>days = Str (js ''unknown''), start_time = Str (js ''unknown''),
                  end_time = Str (js ''unknown''), food_deals = Str (js ''unknown''),
                  drink_deals = Str (js ''unknown'')\<rparr>"
proof -
  have a: "includes_str (js ''Venue: Test Bar'' @ [0xA] @ js ''No website available for crawling.'' @ [0xA])
      (js ''No website available'')"
    using includes_append[of "js ''Venue: Test Bar'' @ [0xA]" "js ''No website available''" "js '' for crawling.'' @ [0xA]"]
    by (simp add: js_def)
  show ?thesis
    using sentinel_all_unknown[of "js ''Venue: Test Bar'' @ [0xA] @ js ''No website available for crawling.'' @ [0xA]"]
      sentinel_all_unknown[of "[]"] a
    by simp
qed

text \<open>
  C4.  The claim is that every day of the inclusive cyclic range of a day-range phrase is
  added, for full and for abbreviated day names and for full-week ranges.  The code does
  not: for "Mon through Fri" the range pattern, which knows the full names only, finds
  nothing and the result is Monday and Friday alone; for "Monday-Sunday" the loop over
  the range stops before its first step, and the result is Sunday and Monday alone.
\<close>

theorem extractDays_range_defects:
  "extractDays (js ''Mon through Fri'') = Some (Some [js ''Monday'', js ''Friday''])
   \<and> extractDays (js ''Monday-Sunday'') = Some (Some [js ''Sunday'', js ''Monday''])"
  by (simp add: pat_defs eval_defs)

text \<open>
  C1.  The claim is made for every input venue list, whatever the directory of raw texts
  holds.  Where the raw text file of a venue exists and cannot be read (a directory of that
  name, a file without read permission), \<^verbatim>\<open>readFileSync\<close> throws, nothing catches the
  exception, and \<open>main\<close> ends without an output array.
\<close>

theorem extractor_unreadable_raw_counterexample:
  "extractor_main
     (Venues [\<lparr>v_id = js ''test-bar'', v_name = js ''Test Bar'', v_address = js ''1 Main St'',
               v_neighborhood = js ''LoDo'', v_website = None, v_scraped_at = js ''2026''\<rparr>])
     (\<lambda>file. Unreadable)
   = Some (Inl Uncaught)"
  by (simp add: extractor_main_def readRaw_def)

text \<open>
  C1, as amended.  For every list of venues and every content of the directory of raw
  texts in which each raw text file of a venue either is missing or can be read, the
  extractor returns, and its output array has the length of the input list and carries the
  identifiers of the input venues, unmodified and in input order.
\<close>

theorem extractor_one_record_per_venue:
  assumes "\<forall>v \<in> set venues. raw (v_id v @ js ''.txt'') \<noteq> Unreadable"
  shows "\<exists>results. extractor_main (Venues venues) raw = Some (Inr results)
       \<and> length results = length venues \<and> map r_id results = map v_id venues"
  using extractAll_ids[OF assms] by (simp add: extractor_main_def)

theorem extractor_one_record_per_venue_witness:
  "\<exists>results. extractor_main
       (Venues [\<lparr>v_id = js ''test-bar'', v_name = js ''Test Bar'', v_address = js ''1 Main St'',
                v_neighborhood = js ''LoDo'', v_website = None, v_scraped_at = js ''2026''\<rparr>,
              \<lparr>v_id = js ''linger'', v_name = js ''Linger'', v_address = js ''2030 W 30th Ave'',
                v_neighborhood = js ''LoHi'', v_website = Some (js ''https://lingerdenver.com''),
                v_scraped_at = js ''2026''\<rparr>])
       (\<lambda>file. if file = js ''linger.txt'' then Content (js ''Happy Hour 3-6pm'') else Absent)
         = Some (Inr results)
     \<and> length results = 2 \<and> map r_id results = [js ''test-bar'', js ''linger'']"
  using extractor_one_record_per_venue
    [of "[\<lparr>v_id = js ''test-bar'', v_name = js ''Test Bar'', v_address = js ''1 Main St'',
                v_neighborhood = js ''LoDo'', v_website = None, v_scraped_at = js ''2026''\<rparr>,
              \<lparr>v_id = js ''linger'', v_name = js ''Linger'', v_address = js ''2030 W 30th Ave'',
                v_neighborhood = js ''LoHi'', v_website = Some (js ''https://lingerdenver.com''),
                v_scraped_at = js ''2026''\<rparr>]"
        "\<lambda>file. if file = js ''linger.txt'' then Content (js ''Happy Hour 3-6pm'') else Absent"]
  by (simp add: numeral_2_eq_2)

text \<open>
  C8.  For every raw text the extractor returns a record, and when the days field of the
  record is not the string "unknown" it is a list that is not empty, has no duplicates and
  holds only names among the seven weekday names Monday to Sunday.
\<close>

theorem days_field_invariant:
  "\<exists>hh. extractHappyHourInfo rawText = Some hh
     \<and> (days hh \<noteq> Str (js ''unknown'') \<longrightarrow>
          (\<exists>ds. days hh = Arr ds \<and> ds \<noteq> [] \<and> distinct ds
             \<and> set ds \<subseteq> set (map js [''Monday'', ''Tuesday'', ''Wednesday'', ''Thursday'',
                                        ''Friday'', ''Saturday'', ''Sunday''])))"
proof -
  obtain hh where hh: "extractHappyHourInfo rawText = Some hh"
    using extractHappyHourInfo_total by blast
  from days_of_info[OF hh] extractDays_dayset[of rawText]
  have "days hh \<noteq> Str (js ''unknown'') \<longrightarrow>
          (\<exists>ds. days hh = Arr ds \<and> ds \<noteq> [] \<and> distinct ds \<and> set ds \<subseteq> set DAYS_OF_WEEK)"
    by (auto simp: unknown_def dayset_def)
  with hh show ?thesis unfolding DAYS_OF_WEEK_def by blast
qed

theorem days_field_invariant_witness:
  "\<exists>hh. extractHappyHourInfo (js ''Open daily'') = Some hh
     \<and> days hh = Arr (map js [''Monday'', ''Tuesday'', ''Wednesday'', ''Thursday'',
                                        ''Friday'', ''Saturday'', ''Sunday''])"
proof -
  obtain hh where hh: "extractHappyHourInfo (js ''Open daily'') = Some hh"
    using days_field_invariant[of "js ''Open daily''"] by blast
  have "extractDays (js ''Open daily'') = Some (Some DAYS_OF_WEEK)"
    by (simp add: extractDays_def str_defs)
  from days_of_info_found[OF hh _ _ _ this] have "days hh = Arr DAYS_OF_WEEK"
    by (simp add: js_def)
  with hh show ?thesis by (simp add: DAYS_OF_WEEK_def)
qed

text \<open>
  C10.  The claim ends: for a name containing no ASCII alphanumeric characters the
  identifier is the empty string.  The Kelvin sign U+212A is not an ASCII character, and
  \<open>toLowerCase\<close> turns it into the letter k, so its slug is "k".
\<close>

theorem slugify_kelvin_counterexample:
  "list_all (\<lambda>c. \<not> asciiAlnum c) [0x212A] \<and> slugify [0x212A] = js ''k''"
  by (simp add: slug_eval asciiAlnum_def)


text \<open>
  C10, as amended.  For every name the identifier holds only lower-case ASCII letters,
  digits and hyphens, does not start with a hyphen, does not end with one and has no two
  hyphens in a row; for a name that holds no ASCII letter or digit and neither U+0130 nor
  U+212A (the two characters outside ASCII whose lower-case form holds an ASCII letter),
  the identifier is the empty string.
\<close>

theorem slugify_shape:
  "(\<forall>c \<in> set (slugify name). (0x61 \<le> c \<and> c \<le> 0x7A) \<or> (0x30 \<le> c \<and> c \<le> 0x39) \<or> c = 0x2D)
   \<and> \<not> prefix (js ''-'') (slugify name) \<and> \<not> suffix (js ''-'') (slugify name)
   \<and> \<not> includes_str (slugify name) (js ''--'')
   \<and> ((\<forall>c \<in> set name. \<not> asciiAlnum c \<and> c \<noteq> 0x130 \<and> c \<noteq> 0x212A) \<longrightarrow> slugify name = [])"
proof -
  have "(\<forall>c \<in> set name. \<not> asciiAlnum c \<and> c \<noteq> 0x130 \<and> c \<noteq> 0x212A) \<longrightarrow> slugify name = []"
    unfolding slugify_closed
    using toLowerCase_not_alnum[of name] collapse_none[of "toLowerCase name"] stripEdges_hyphen
    by (auto simp: list_all_iff)
  then show ?thesis
    using slugify_shape_aux[of name]
    by (auto simp: js_def includes_sublist slugChar_def isAlnum_def list_all_iff)
qed

theorem slugify_shape_witness:
  "slugify (js ''The 1UP - LoDo'') = js ''the-1up-lodo'' \<and> slugify (js ''!?'') = []
   \<and> \<not> prefix (js ''-'') (js ''the-1up-lodo'') \<and> \<not> suffix (js ''-'') (js ''the-1up-lodo'')
   \<and> \<not> includes_str (js ''the-1up-lodo'') (js ''--'')"
proof -
  have a: "slugify (js ''The 1UP - LoDo'') = js ''the-1up-lodo''"
    by (simp add: slug_eval)
  have b: "\<forall>c \<in> set (js ''!?''). \<not> asciiAlnum c \<and> c \<noteq> 0x130 \<and> c \<noteq> 0x212A"
    by (simp add: js_def asciiAlnum_def isAlnum_def)
  show ?thesis
    using slugify_shape[of "js ''The 1UP - LoDo''"] slugify_shape[of "js ''!?''"] a b
    by simp
qed

text \<open>
  C7.  Whichever path the scraper takes, no two venues of its output array have the same
  identifier, and every identifier is the slug of the venue's name.  On the path of the live
  scrape (ten cards or more) the output is the list of venues before the filter with the
  later venues of each identifier left out: it keeps the order of that list, holds every
  identifier of it, and each venue it holds is the first of that list with its identifier.
  On the other path the output is the curated list, whose 24 slugs are all different.
\<close>

theorem discovery_ids_unique:
  "distinct (map v_id (scraper_main ts scraped))
   \<and> (\<forall>v \<in> set (scraper_main ts scraped). v_id v = slugify (v_name v))
   \<and> (\<forall>cards. scraped = Some cards \<and> 10 \<le> length cards \<longrightarrow>
         subseq (scraper_main ts scraped) (map (scrapedVenue ts) cards)
         \<and> set (map v_id (scraper_main ts scraped)) = set (map (\<lambda>c. slugify (c_name c)) cards)
         \<and> (\<forall>v \<in> set (scraper_main ts scraped).
               find (\<lambda>u. v_id u = v_id v) (map (scrapedVenue ts) cards) = Some v))"
proof -
  have "distinct (map v_id (scraper_main ts scraped))"
    by (auto simp: scraper_main_def dedupe_distinct fallback_distinct split: option.splits)
  moreover have "subseq (scraper_main ts scraped) (map (scrapedVenue ts) cards)
         \<and> set (map v_id (scraper_main ts scraped)) = set (map (\<lambda>c. slugify (c_name c)) cards)
         \<and> (\<forall>v \<in> set (scraper_main ts scraped).
               find (\<lambda>u. v_id u = v_id v) (map (scrapedVenue ts) cards) = Some v)"
    if "scraped = Some cards" "10 \<le> length cards" for cards
  proof -
    have m: "scraper_main ts scraped = dedupe {} (map (scrapedVenue ts) cards)"
      using that by (simp add: scraper_main_def)
    have ids: "map v_id (map (scrapedVenue ts) cards) = map (\<lambda>c. slugify (c_name c)) cards"
      by (simp add: scrapedVenue_def)
    have "set (map v_id (dedupe {} (map (scrapedVenue ts) cards)))
            = set (map (\<lambda>c. slugify (c_name c)) cards)"
      using dedupe_ids[of "{}" "map (scrapedVenue ts) cards"] ids
      by (metis Diff_empty list.set_map)
    then show ?thesis unfolding m using dedupe_subseq dedupe_first by blast
  qed
  ultimately show ?thesis using scraper_main_slugs by blast
qed

theorem discovery_ids_unique_witness:
  "map v_name (scraper_main (js ''2026'')
      (Some (map (\<lambda>n. \<lparr>c_name = js n, c_address = [], c_neighborhood = js ''LoDo'', c_website = None\<rparr>)
          [''A Bar'', ''B'', ''a-bar'', ''C'', ''D'', ''E'', ''F'', ''b'', ''G'', ''H''])))
     = map js [''A Bar'', ''B'', ''C'', ''D'', ''E'', ''F'', ''G'', ''H'']
   \<and> map v_id (scraper_main (js ''2026'')
      (Some (map (\<lambda>n. \<lparr>c_name = js n, c_address = [], c_neighborhood = js ''LoDo'', c_website = None\<rparr>)
          [''A Bar'', ''B'', ''a-bar'', ''C'', ''D'', ''E'', ''F'', ''b'', ''G'', ''H''])))
     = map js [''a-bar'', ''b'', ''c'', ''d'', ''e'', ''f'', ''g'', ''h'']
   \<and> distinct (map js [''a-bar'', ''b'', ''c'', ''d'', ''e'', ''f'', ''g'', ''h''])"
proof -
  let ?cards = "map (\<lambda>n. \<lparr>c_name = js n, c_address = [], c_neighborhood = js ''LoDo'', c_website = None\<rparr>)
          [''A Bar'', ''B'', ''a-bar'', ''C'', ''D'', ''E'', ''F'', ''b'', ''G'', ''H'']"
  have a: "map v_name (scraper_main (js ''2026'') (Some ?cards))
             = map js [''A Bar'', ''B'', ''C'', ''D'', ''E'', ''F'', ''G'', ''H'']"
    and b: "map v_id (scraper_main (js ''2026'') (Some ?cards))
             = map js [''a-bar'', ''b'', ''c'', ''d'', ''e'', ''f'', ''g'', ''h'']"
    by (simp_all add: scraper_main_def scrapedVenue_def slug_eval)
  have "distinct (map v_id (scraper_main (js ''2026'') (Some ?cards)))"
    using discovery_ids_unique[of "js ''2026''" "Some ?cards"] by blast
  with a b show ?thesis by simp
qed




text \<open>
  C5.  The day-indicating phrases are the ones the specification lists: the phrases for the
  whole week, the weekdays and the weekend, day ranges, and individual day names, full or
  abbreviated.  Let a raw text hold the phrase "Monday-Friday" and no other of them: its
  lower-case form contains none of "daily", "every day", "7 days", "weekday" and "weekend";
  a day name stands at no position other than the two of the phrase (so there is no other
  range and no other full name); and no abbreviation of a day stands anywhere as a word.
  Then day extraction yields the list Monday, Tuesday, Wednesday, Thursday, Friday, in this
  order.
\<close>

theorem extractDays_monday_friday:
  assumes "raw = pre @ js ''Monday-Friday'' @ post"
    and "\<forall>kw \<in> set dayKeywords. \<not> includes_str (toLowerCase raw) (js kw)"
    and "\<forall>cu \<in> set (cursors (None, raw)). dayNameAt cu
           \<longrightarrow> snd cu = js ''Monday-Friday'' @ post \<or> snd cu = js ''Friday'' @ post"
    and "\<forall>cu \<in> set (cursors (None, raw)). \<not> dayWordAt cu"
  shows "extractDays raw
           = Some (Some (map js [''Monday'', ''Tuesday'', ''Wednesday'', ''Thursday'', ''Friday'']))"
proof -
  let ?MF = "map js [''Monday'', ''Tuesday'', ''Wednesday'', ''Thursday'', ''Friday'']"
  obtain rs where rs: "execAll True rangePattern (None, raw) = Some rs"
    using execAll_total[OF patterns_consume(1)] by blast
  obtain ss where ss: "execAll True dayPattern (None, raw) = Some ss"
    using execAll_total[OF patterns_consume(2)] by blast
  have r1: "\<forall>m \<in> set rs. snd m = (\<lambda>_. None)(1 := Some (js ''Monday''), 2 := Some (js ''Friday''))"
  proof
    fix m assume "m \<in> set rs"
    from execAll_cursor[OF rs this] obtain cu mt where
      "cu \<in> set (cursors (None, raw))" "matchAt True rangePattern cu = Some mt"
      "m = (fst mt, fst (snd mt))"
      by blast
    with range_at[OF this(2,1) assms(3)]
    show "snd m = (\<lambda>_. None)(1 := Some (js ''Monday''), 2 := Some (js ''Friday''))" by simp
  qed
  have r2: "rs \<noteq> []"
  proof -
    obtain q where "(q, js ''Monday-Friday'' @ post) \<in> set (cursors (None, raw))"
      using cursors_append[of "js ''Monday-Friday'' @ post" None pre] assms(1) by auto
    moreover obtain mt where "matchAt True rangePattern (q, js ''Monday-Friday'' @ post) = Some mt"
      using range_at_phrase[of q post] by blast
    ultimately have "exec True rangePattern (None, raw) \<noteq> None" by (rule exec_found)
    then show ?thesis using rs by (rule execAll_nonempty)
  qed
  have s1: "\<forall>m \<in> set ss. snd m 1 = Some (js ''Monday'') \<or> snd m 1 = Some (js ''Friday'')"
  proof
    fix m assume "m \<in> set ss"
    from execAll_cursor[OF ss this] obtain cu mt where
      a: "cu \<in> set (cursors (None, raw))" "matchAt True dayPattern cu = Some mt"
      "m = (fst mt, fst (snd mt))"
      by blast
    from single_at_phrase[OF a(2), of post] assms(3,4) a(1,3)
    show "snd m 1 = Some (js ''Monday'') \<or> snd m 1 = Some (js ''Friday'')" by auto
  qed
  have f1: "foldl addRange [] rs = ?MF"
    using r1 r2 by (intro foldl_addRange_phrase) simp_all
  have f2: "foldl addDay ?MF ss = ?MF"
    using s1 by (rule foldl_addDay_phrase)
  from assms(2) have k: "\<not> includes_str (toLowerCase raw) (js ''daily'')"
    "\<not> includes_str (toLowerCase raw) (js ''every day'')"
    "\<not> includes_str (toLowerCase raw) (js ''7 days'')"
    "\<not> includes_str (toLowerCase raw) (js ''weekday'')"
    "\<not> includes_str (toLowerCase raw) (js ''weekend'')"
    by (simp_all add: dayKeywords_def)
  have "extractDays raw
          = Some (if length (foldl addDay (foldl addRange [] rs) ss) > 0
                  then Some (foldl addDay (foldl addRange [] rs) ss) else None)"
    by (simp add: extractDays_def Let_def k rs ss)
  then show ?thesis unfolding f1 f2 by simp
qed

theorem extractDays_monday_friday_witness:
  "extractDays (js ''Happy hour Monday-Friday from 3pm to 6pm'')
     = Some (Some (map js [''Monday'', ''Tuesday'', ''Wednesday'', ''Thursday'', ''Friday'']))"
proof -
  let ?raw = "js ''Happy hour Monday-Friday from 3pm to 6pm''"
  have a: "?raw = js ''Happy hour '' @ js ''Monday-Friday'' @ js '' from 3pm to 6pm''"
    by (simp add: js_def)
  have b: "\<forall>kw \<in> set dayKeywords. \<not> includes_str (toLowerCase ?raw) (js kw)"
    by (simp add: dayKeywords_def js_def toLowerCase_def lowerUnit_def)
  have c: "\<forall>cu \<in> set (cursors (None, ?raw)). dayNameAt cu
           \<longrightarrow> snd cu = js ''Monday-Friday'' @ js '' from 3pm to 6pm''
               \<or> snd cu = js ''Friday'' @ js '' from 3pm to 6pm''"
    by (simp add: js_def dayNameAt_def startsWith_ci_def dayNames_def asciiLower_def)
  have d: "\<forall>cu \<in> set (cursors (None, ?raw)). \<not> dayWordAt cu"
    by (simp add: js_def dayWordAt_def startsWith_ci_def dayAbbreviations_def asciiLower_def
        boundary_def isWordChar_def)
  show ?thesis
    using extractDays_monday_friday[OF a b c d] .
qed

end
